theory Spec2Isabelle
  imports Complex_Main "HOL-Library.Product_Lexorder"
begin

section \<open>Data model of \<^verbatim>\<open>app.py\<close>\<close>

text \<open>
  The server keeps every lobby as a dictionary in the global \<^verbatim>\<open>lobbies\<close>. A lobby holds
  the list of its players (dictionaries with the keys \<^verbatim>\<open>id\<close>, \<^verbatim>\<open>is_host\<close>, \<^verbatim>\<open>score\<close>), the
  strings \<^verbatim>\<open>'waiting'\<close> or \<^verbatim>\<open>'playing'\<close> as status, the round counter and the current song.
  The key \<^verbatim>\<open>'guesses'\<close> is not written by \<^verbatim>\<open>create_lobby\<close>: it first appears when
  \<^verbatim>\<open>run_game\<close> starts a round, so the field is optional here and reading it while it is
  absent is the \<^verbatim>\<open>KeyError\<close> of the source.

  Strings are \<^typ>\<open>string\<close>. The fields \<^verbatim>\<open>id\<close> and \<^verbatim>\<open>round\<close> are named \<open>player_id\<close> and
  \<open>round_no\<close>, since \<open>id\<close> and \<open>round\<close> are constants of HOL.
\<close>

text \<open>
  A guess is whatever JSON value the request body has under \<^verbatim>\<open>'guess'\<close>, and the fields of
  a track are whatever JSON values the song source returns: neither is checked to be
  text. \<open>JNull\<close> is Python's \<^verbatim>\<open>None\<close>, also for a key that is missing. \<open>truthy\<close> is the
  truth value Python gives a value in \<^verbatim>\<open>if\<close>, \<^verbatim>\<open>and\<close> and \<^verbatim>\<open>not\<close>.
\<close>

datatype json =
    JNull
  | JBool bool
  | JNum rat
  | JStr string
  | JArr "json list"
  | JObj "(string \<times> json) list"

fun truthy :: "json \<Rightarrow> bool" where
  "truthy JNull = False"
| "truthy (JBool b) = b"
| "truthy (JNum n) = (n \<noteq> 0)"
| "truthy (JStr s) = (s \<noteq> [])"
| "truthy (JArr xs) = (xs \<noteq> [])"
| "truthy (JObj kvs) = (kvs \<noteq> [])"

record player =
  player_id :: string
  is_host :: bool
  score :: int

record guess_record =
  guess :: json
  submitted :: bool

record song_data =
  song :: json
  artist :: json
  audio_url :: json

datatype status = waiting | playing

text \<open>
  The keys of \<^verbatim>\<open>lobby['guesses']\<close> are player ids when \<^verbatim>\<open>run_game\<close> builds the dictionary
  and \<^verbatim>\<open>session.get('user_id')\<close>, which may be \<^verbatim>\<open>None\<close>, when \<^verbatim>\<open>submit_guess\<close> writes to it.
\<close>

type_synonym guess_table = "string option \<rightharpoonup> guess_record"

record lobby =
  players :: "player list"
  status :: status
  round_no :: int
  max_rounds :: int
  current_song :: "song_data option"
  guesses :: "guess_table option"

text \<open>The events passed to \<^verbatim>\<open>socketio.emit\<close>, with their payloads.\<close>

datatype event =
    player_joined string
  | player_left string
  | game_started
  | round_started int int song_data
  | round_started_error int int string
  | player_guessed "string option"
  | round_ended_personal int json json bool
  | round_transition "int option" int
  | game_ended "string option" "player list"

text \<open>
  The globals of the module: the lobby table, the map from user ids to socket ids, and,
  as logs, the events emitted (with the room each went to) and the background tasks
  started by \<^verbatim>\<open>socketio.start_background_task(run_game, lobby_code)\<close>.
\<close>

record server =
  lobbies :: "string \<rightharpoonup> lobby"
  user_socket_map :: "string \<rightharpoonup> string"
  emitted :: "(string \<times> event) list"
  tasks :: "string list"

text \<open>The Flask session of one browser: the keys \<^verbatim>\<open>user_id\<close> and \<^verbatim>\<open>score\<close>, each optional.\<close>

record session =
  user_id :: "string option"
  session_score :: "int option"

text \<open>The JSON bodies the handlers return, paired with the HTTP status code.\<close>

datatype body =
    error_body string
  | code_body string bool
  | success_body
  | success_message string
  | validation_body bool string int
  | score_body int

type_synonym response = "body \<times> nat"

datatype py_exception = KeyError string | AttributeError string

section \<open>Lobby management\<close>

text \<open>
  \<^verbatim>\<open>generate_lobby_code\<close> draws random six-digit codes until one is not a key of
  \<^verbatim>\<open>lobbies\<close>. The draws are a parameter; when they run out before a free code is found
  the loop has not returned, which is the value \<open>None\<close>.
\<close>

fun generate_lobby_code :: "string list \<Rightarrow> (string \<rightharpoonup> lobby) \<Rightarrow> string option" where
  "generate_lobby_code [] lbs = None"
| "generate_lobby_code (c # cs) lbs =
     (if lbs c = None then Some c else generate_lobby_code cs lbs)"

text \<open>
  \<^verbatim>\<open>if 'user_id' not in session: session['user_id'] = str(random.randint(10000, 99999))\<close>,
  the random id being the parameter \<open>rnd\<close>.
\<close>

definition ensure_user_id :: "string \<Rightarrow> session \<Rightarrow> session" where
  "ensure_user_id rnd sess =
     (case user_id sess of None \<Rightarrow> sess\<lparr>user_id := Some rnd\<rparr> | Some u \<Rightarrow> sess)"

definition session_user :: "string \<Rightarrow> session \<Rightarrow> string" where
  "session_user rnd sess = (case user_id sess of None \<Rightarrow> rnd | Some u \<Rightarrow> u)"

definition new_lobby :: "string \<Rightarrow> lobby" where
  "new_lobby uid =
     \<lparr>players = [\<lparr>player_id = uid, is_host = True, score = 0\<rparr>],
      status = waiting, round_no = 0, max_rounds = 10,
      current_song = None, guesses = None\<rparr>"

definition create_lobby ::
  "string list \<Rightarrow> string \<Rightarrow> session \<Rightarrow> server \<Rightarrow> (response \<times> session \<times> server) option" where
  "create_lobby draws rnd sess srv =
     (case generate_lobby_code draws (lobbies srv) of
        None \<Rightarrow> None
      | Some lobby_code \<Rightarrow>
          Some ((code_body lobby_code True, 200),
                ensure_user_id rnd sess,
                srv\<lparr>lobbies := (lobbies srv)(lobby_code \<mapsto> new_lobby (session_user rnd sess))\<rparr>))"

text \<open>Python's \<^verbatim>\<open>not lobby_code or lobby_code not in lobbies\<close> on \<^verbatim>\<open>data.get('code')\<close>.\<close>

definition find_lobby :: "string option \<Rightarrow> server \<Rightarrow> (string \<times> lobby) option" where
  "find_lobby code srv =
     (case code of
        None \<Rightarrow> None
      | Some c \<Rightarrow> (if c = [] then None
                   else case lobbies srv c of None \<Rightarrow> None | Some lb \<Rightarrow> Some (c, lb)))"

definition is_member :: "string \<Rightarrow> player list \<Rightarrow> bool" where
  "is_member uid ps = list_ex (\<lambda>p. player_id p = uid) ps"

definition is_host_of :: "string \<Rightarrow> player list \<Rightarrow> bool" where
  "is_host_of uid ps = list_ex (\<lambda>p. player_id p = uid \<and> is_host p) ps"

definition new_player :: "string \<Rightarrow> player" where
  "new_player uid = \<lparr>player_id = uid, is_host = False, score = 0\<rparr>"

definition join_lobby ::
  "string option \<Rightarrow> string \<Rightarrow> session \<Rightarrow> server \<Rightarrow> response \<times> session \<times> server" where
  "join_lobby code rnd sess srv =
     (case find_lobby code srv of
        None \<Rightarrow> ((error_body ''Invalid lobby code'', 404), sess, srv)
      | Some (lobby_code, lb) \<Rightarrow>
          (let sess' = ensure_user_id rnd sess; uid = session_user rnd sess in
           if is_member uid (players lb)
           then ((code_body lobby_code (is_host_of uid (players lb)), 200), sess', srv)
           else if length (players lb) \<ge> 8
           then ((error_body ''Lobby is full'', 400), sess', srv)
           else ((code_body lobby_code False, 200), sess',
                 srv\<lparr>lobbies := (lobbies srv)
                        (lobby_code \<mapsto> lb\<lparr>players := players lb @ [new_player uid]\<rparr>),
                     emitted := emitted srv @ [(lobby_code, player_joined uid)]\<rparr>)))"

text \<open>
  The two list operations of \<^verbatim>\<open>leave_lobby\<close>: the comprehension that drops every entry
  with the leaver's id, and the promotion of the first remaining player when no host is
  left. The promotion is only run on a non-empty list; on the empty list nothing is
  written here.
\<close>

definition remove_player :: "string \<Rightarrow> player list \<Rightarrow> player list" where
  "remove_player uid ps = filter (\<lambda>p. player_id p \<noteq> uid) ps"

definition assign_host :: "player list \<Rightarrow> player list" where
  "assign_host ps =
     (if \<not> list_ex is_host ps
      then (case ps of [] \<Rightarrow> [] | p # rest \<Rightarrow> p\<lparr>is_host := True\<rparr> # rest)
      else ps)"

definition leave_lobby ::
  "string option \<Rightarrow> session \<Rightarrow> server \<Rightarrow> response \<times> server" where
  "leave_lobby code sess srv =
     (case find_lobby code srv of
        None \<Rightarrow> ((error_body ''Invalid lobby code'', 404), srv)
      | Some (lobby_code, lb) \<Rightarrow>
          (case user_id sess of
             None \<Rightarrow> ((error_body ''Not in a lobby'', 400), srv)
           | Some uid \<Rightarrow>
               (let ps = remove_player uid (players lb);
                    socks = (user_socket_map srv)(uid := None)
                in if ps = []
                   then ((success_body, 200),
                         srv\<lparr>lobbies := (lobbies srv)(lobby_code := None),
                             user_socket_map := socks\<rparr>)
                   else ((success_body, 200),
                         srv\<lparr>lobbies := (lobbies srv)
                                (lobby_code \<mapsto> lb\<lparr>players := assign_host ps\<rparr>),
                             user_socket_map := socks,
                             emitted := emitted srv @ [(lobby_code, player_left uid)]\<rparr>))))"

text \<open>
  \<^verbatim>\<open>start_game\<close>: \<^verbatim>\<open>if not user_id\<close> rejects a missing and an empty identity. The status
  is written and the task started whatever the status was before.
\<close>

definition start_game ::
  "string option \<Rightarrow> session \<Rightarrow> server \<Rightarrow> response \<times> server" where
  "start_game code sess srv =
     (case find_lobby code srv of
        None \<Rightarrow> ((error_body ''Invalid lobby code'', 404), srv)
      | Some (lobby_code, lb) \<Rightarrow>
          (case user_id sess of
             None \<Rightarrow> ((error_body ''User not identified'', 400), srv)
           | Some uid \<Rightarrow>
               if uid = [] then ((error_body ''User not identified'', 400), srv)
               else if \<not> is_host_of uid (players lb)
               then ((error_body ''Only host can start the game'', 403), srv)
               else ((success_body, 200),
                     srv\<lparr>lobbies := (lobbies srv)(lobby_code \<mapsto> lb\<lparr>status := playing\<rparr>),
                         emitted := emitted srv @ [(lobby_code, game_started)],
                         tasks := tasks srv @ [lobby_code]\<rparr>)))"

text \<open>
  \<^verbatim>\<open>submit_guess\<close> accepts every truthy guess, text or not, and stores it as it is. It
  reads \<^verbatim>\<open>lobby['guesses']\<close> without a default: a lobby that has no such key raises
  \<^verbatim>\<open>KeyError\<close>, which no handler catches.
\<close>

definition already_submitted :: "guess_table \<Rightarrow> string option \<Rightarrow> bool" where
  "already_submitted g uid = (case g uid of None \<Rightarrow> False | Some r \<Rightarrow> submitted r)"

definition submit_guess ::
  "json \<Rightarrow> string option \<Rightarrow> session \<Rightarrow> server \<Rightarrow> py_exception + (response \<times> server)" where
  "submit_guess gs code sess srv =
     (case (if \<not> truthy gs then None else find_lobby code srv) of
        None \<Rightarrow> Inr ((error_body ''Invalid request'', 400), srv)
      | Some (lobby_code, lb) \<Rightarrow>
          (case guesses lb of
             None \<Rightarrow> Inl (KeyError ''guesses'')
           | Some g \<Rightarrow>
               if already_submitted g (user_id sess)
               then Inr ((error_body ''You have already made a guess this round'', 400), srv)
               else Inr ((success_message ''Guess submitted! Wait for round end to see results.'', 200),
                         srv\<lparr>lobbies := (lobbies srv)
                                (lobby_code \<mapsto>
                                   lb\<lparr>guesses := Some (g(user_id sess \<mapsto>
                                          \<lparr>guess = gs, submitted = True\<rparr>))\<rparr>),
                             emitted := emitted srv @
                                [(lobby_code, player_guessed (user_id sess))]\<rparr>)))"

section \<open>The round scheduler\<close>

subsection \<open>Scoring a round\<close>

text \<open>
  The characters of the model's strings are the code points below 256. On these
  \<^verbatim>\<open>str.lower\<close> moves the letters \<^verbatim>\<open>A\<close> to \<^verbatim>\<open>Z\<close> and the upper-case letters of Latin-1
  (192 to 222 without the multiplication sign 215) up by 32 and leaves every other
  character as it is.
\<close>

definition lower_char :: "char \<Rightarrow> char" where
  "lower_char c =
     (let n = (of_char c :: nat) in
      if (65 \<le> n \<and> n \<le> 90) \<or> (192 \<le> n \<and> n \<le> 222 \<and> n \<noteq> 215)
      then char_of (n + 32) else c)"

definition lower :: "string \<Rightarrow> string" where
  "lower s = map lower_char s"

text \<open>\<^verbatim>\<open>lobby['guesses'].get(player['id'], {}).get('guess')\<close>\<close>

definition player_guess :: "guess_table \<Rightarrow> string \<Rightarrow> json" where
  "player_guess tbl uid = (case tbl (Some uid) of None \<Rightarrow> JNull | Some r \<Rightarrow> guess r)"

text \<open>
  \<^verbatim>\<open>player_guess and player_guess.lower() == song_data['song'].lower()\<close>. A guess that is
  not truthy gives false without a call of \<^verbatim>\<open>lower\<close>. A truthy guess that is not text has
  no method \<^verbatim>\<open>lower\<close>, and neither has a title that is not text: the expression raises
  \<^verbatim>\<open>AttributeError\<close>.
\<close>

definition is_correct :: "json \<Rightarrow> json \<Rightarrow> py_exception + bool" where
  "is_correct pg title =
     (if \<not> truthy pg then Inr False
      else case pg of
             JStr g \<Rightarrow>
               (case title of
                  JStr t \<Rightarrow> Inr (lower g = lower t)
                | _ \<Rightarrow> Inl (AttributeError ''lower''))
           | _ \<Rightarrow> Inl (AttributeError ''lower''))"

text \<open>
  The scoring loop over \<^verbatim>\<open>lobby['players']\<close>: each player dictionary gets its score
  raised by one when its guess is correct, and \<^verbatim>\<open>guess_results\<close> gets an entry under the
  player's id (a later entry under the same id replaces an earlier one). Nothing in
  \<^verbatim>\<open>run_game\<close> catches the exception of the comparison: the loop stops at the player
  where it is raised, with the players before already scored and this and every later
  player untouched. The result is the exception, if any, with the player list and the
  results as the loop left them.
\<close>

type_synonym guess_results = "string \<rightharpoonup> (json \<times> bool)"

fun score_players ::
  "guess_table \<Rightarrow> json \<Rightarrow> player list \<Rightarrow> guess_results \<Rightarrow>
     py_exception option \<times> player list \<times> guess_results" where
  "score_players tbl title [] res = (None, [], res)"
| "score_players tbl title (p # ps) res =
     (let pg = player_guess tbl (player_id p) in
      case is_correct pg title of
        Inl e \<Rightarrow> (Some e, p # ps, res)
      | Inr ok \<Rightarrow>
          (let p' = (if ok then p\<lparr>score := score p + 1\<rparr> else p);
               (e, ps', res') = score_players tbl title ps (res(player_id p \<mapsto> (pg, ok)))
           in (e, p' # ps', res')))"

subsection \<open>The task and what happens while it sleeps\<close>

text \<open>
  What the task itself does to the outside is kept as a trace: the events it emits, each
  with the room it goes to, and the pauses of \<^verbatim>\<open>socketio.sleep\<close>.
\<close>

datatype effect = emit event string | slept nat

text \<open>
  While the task sleeps the server handles requests on the same lobby dictionary. A
  visit is the effect one request has on that dictionary or on \<^verbatim>\<open>user_socket_map\<close>:
  a guess submitted, a player joining or leaving, a socket joining or leaving the room.
  A request that the handler rejects (a guess that is not truthy, a second guess, a member joining
  again, a full lobby) or that fails (a guess while the lobby has no \<^verbatim>\<open>'guesses'\<close> key)
  changes nothing, and so does every request once the lobby is no longer registered.
\<close>

datatype visit =
    guess_request "string option" json
  | join_request string
  | leave_request string
  | socket_join string string
  | socket_leave string

text \<open>
  The state of one task: the lobby dictionary it holds, whether that dictionary is still
  the one registered in \<^verbatim>\<open>lobbies\<close> (requests reach it only then), \<^verbatim>\<open>user_socket_map\<close>, the
  number of HTTP fetches and of sleeps so far, and the trace.
\<close>

record sched =
  lobby_obj :: lobby
  registered :: bool
  sockets :: "string \<rightharpoonup> string"
  fetches :: nat
  sleeps :: nat
  trace :: "effect list"

fun serve :: "visit \<Rightarrow> sched \<Rightarrow> sched" where
  "serve (guess_request uid g) s =
     (if \<not> registered s \<or> \<not> truthy g then s
      else case guesses (lobby_obj s) of
             None \<Rightarrow> s
           | Some tbl \<Rightarrow>
               if already_submitted tbl uid then s
               else s\<lparr>lobby_obj := (lobby_obj s)\<lparr>guesses :=
                        Some (tbl(uid \<mapsto> \<lparr>guess = g, submitted = True\<rparr>))\<rparr>\<rparr>)"
| "serve (join_request uid) s =
     (if \<not> registered s then s
      else if is_member uid (players (lobby_obj s)) then s
      else if length (players (lobby_obj s)) \<ge> 8 then s
      else s\<lparr>lobby_obj := (lobby_obj s)\<lparr>players :=
               players (lobby_obj s) @ [new_player uid]\<rparr>\<rparr>)"
| "serve (leave_request uid) s =
     (if \<not> registered s then s
      else let ps = remove_player uid (players (lobby_obj s)) in
           if ps = []
           then s\<lparr>lobby_obj := (lobby_obj s)\<lparr>players := []\<rparr>, registered := False,
                   sockets := (sockets s)(uid := None)\<rparr>
           else s\<lparr>lobby_obj := (lobby_obj s)\<lparr>players := assign_host ps\<rparr>,
                   sockets := (sockets s)(uid := None)\<rparr>)"
| "serve (socket_join uid sid) s = s\<lparr>sockets := (sockets s)(uid \<mapsto> sid)\<rparr>"
| "serve (socket_leave uid) s = s\<lparr>sockets := (sockets s)(uid := None)\<rparr>"

text \<open>
  \<^verbatim>\<open>socketio.sleep(secs)\<close>: the pause is recorded, then the visits that arrive during
  this sleep (the \<open>k\<close>-th sleep of the task gets \<open>env k\<close>) are served in order.
\<close>

definition sleep :: "(nat \<Rightarrow> visit list) \<Rightarrow> nat \<Rightarrow> sched \<Rightarrow> sched" where
  "sleep env secs s =
     (fold serve (env (sleeps s)) (s\<lparr>trace := trace s @ [slept secs]\<rparr>))\<lparr>sleeps := sleeps s + 1\<rparr>"

definition emit_to :: "event \<Rightarrow> string \<Rightarrow> sched \<Rightarrow> sched" where
  "emit_to ev room s = s\<lparr>trace := trace s @ [emit ev room]\<rparr>"

subsection \<open>Fetching a song\<close>

text \<open>
  One attempt of the \<^verbatim>\<open>try\<close> block: any exception in it (the HTTP request, the status
  check, the JSON access) is \<open>fetch_failed\<close>; otherwise the track has a title, an artist
  name and a preview (\<open>JNull\<close> when missing). The attempt gives a song only when all
  three are truthy.
\<close>

datatype fetched = fetch_failed | track json json json

fun complete_song :: "fetched \<Rightarrow> song_data option" where
  "complete_song fetch_failed = None"
| "complete_song (track t a p) =
     (if truthy t \<and> truthy a \<and> truthy p
      then Some \<lparr>song = t, artist = a, audio_url = p\<rparr> else None)"

definition max_retries :: nat where
  "max_retries = 3"

text \<open>
  \<^verbatim>\<open>while not song_data and retry_count < max_retries\<close>; the \<open>n\<close>-th HTTP fetch of the task
  returns \<open>src n\<close>. A failed attempt counts up and sleeps one second.
\<close>

function fetch_song ::
  "(nat \<Rightarrow> fetched) \<Rightarrow> (nat \<Rightarrow> visit list) \<Rightarrow> nat \<Rightarrow> sched \<Rightarrow> song_data option \<times> sched" where
  "fetch_song src env retry_count s =
     (if retry_count < max_retries then
        (case complete_song (src (fetches s)) of
           Some sd \<Rightarrow> (Some sd, s\<lparr>fetches := fetches s + 1\<rparr>)
         | None \<Rightarrow> fetch_song src env (retry_count + 1)
                     (sleep env 1 (s\<lparr>fetches := fetches s + 1\<rparr>)))
      else (None, s))"
  by pat_completeness auto
termination
  by (relation "measure (\<lambda>(src, env, retry_count, s). max_retries - retry_count)") auto

declare fetch_song.simps [simp del]

subsection \<open>One round, the loop and the end of the game\<close>

text \<open>\<^verbatim>\<open>{player['id']: {'guess': None, 'submitted': False} for player in lobby['players']}\<close>\<close>

definition reset_guesses :: "player list \<Rightarrow> guess_table" where
  "reset_guesses ps =
     (\<lambda>k. case k of
            None \<Rightarrow> None
          | Some uid \<Rightarrow> (if is_member uid ps
                         then Some \<lparr>guess = JNull, submitted = False\<rparr> else None))"

text \<open>
  The local \<^verbatim>\<open>max_rounds = 10\<close> of \<^verbatim>\<open>run_game\<close>; the field \<open>max_rounds\<close> of a lobby is the
  key of the dictionary, which \<^verbatim>\<open>run_game\<close> does not read.
\<close>

definition run_max_rounds :: int where
  "run_max_rounds = 10"

text \<open>
  The personal results: for each player, in list order, \<^verbatim>\<open>round_ended_personal\<close> goes to
  the socket of the player if \<^verbatim>\<open>user_socket_map\<close> has one.
\<close>

fun personal_results ::
  "int \<Rightarrow> json \<Rightarrow> guess_results \<Rightarrow> (string \<rightharpoonup> string) \<Rightarrow> player list \<Rightarrow> effect list" where
  "personal_results r title res socks [] = []"
| "personal_results r title res socks (p # ps) =
     (let (g, ok) = (case res (player_id p) of None \<Rightarrow> (JNull, False) | Some x \<Rightarrow> x) in
      case socks (player_id p) of
        None \<Rightarrow> personal_results r title res socks ps
      | Some sid \<Rightarrow> emit (round_ended_personal r title g ok) sid
                     # personal_results r title res socks ps)"

text \<open>
  The body of \<^verbatim>\<open>while lobby['round'] <= max_rounds\<close>. When no song was fetched the round
  is skipped. Otherwise the round is announced, the task sleeps 30 seconds, scores the
  guesses, sends the results, sleeps 5 seconds and counts the round up. Reading
  \<^verbatim>\<open>lobby['guesses']\<close> for the scoring raises if the key is not there, and the scoring
  loop may raise. An exception ends the task; it is returned with the state of the task
  at that moment, which is what remains of the lobby.
\<close>

definition round_body ::
  "(nat \<Rightarrow> fetched) \<Rightarrow> (nat \<Rightarrow> visit list) \<Rightarrow> string \<Rightarrow> sched \<Rightarrow>
     (py_exception \<times> sched) + sched" where
  "round_body src env lobby_code s0 =
     (let s1 = s0\<lparr>lobby_obj := (lobby_obj s0)\<lparr>guesses :=
                   Some (reset_guesses (players (lobby_obj s0)))\<rparr>\<rparr>;
          (song_data, s2) = fetch_song src env 0 s1
      in case song_data of
           None \<Rightarrow>
             (let s3 = emit_to (round_started_error (round_no (lobby_obj s2)) 30
                          ''Failed to fetch song data. Skipping round.'') lobby_code s2;
                  s4 = sleep env 5 s3
              in Inr (s4\<lparr>lobby_obj := (lobby_obj s4)\<lparr>round_no := round_no (lobby_obj s4) + 1\<rparr>\<rparr>))
         | Some sd \<Rightarrow>
             (let s3 = s2\<lparr>lobby_obj := (lobby_obj s2)\<lparr>current_song := Some sd\<rparr>\<rparr>;
                  s4 = emit_to (round_started (round_no (lobby_obj s3)) 30 sd) lobby_code s3;
                  s5 = sleep env 30 s4
              in case guesses (lobby_obj s5) of
                   None \<Rightarrow> Inl (KeyError ''guesses'', s5)
                 | Some tbl \<Rightarrow>
                     (case score_players tbl (song sd) (players (lobby_obj s5)) Map.empty of
                        (Some e, ps, res) \<Rightarrow>
                          Inl (e, s5\<lparr>lobby_obj := (lobby_obj s5)\<lparr>players := ps\<rparr>\<rparr>)
                      | (None, ps, res) \<Rightarrow>
                          (let s6 = s5\<lparr>lobby_obj := (lobby_obj s5)\<lparr>players := ps\<rparr>\<rparr>;
                               r = round_no (lobby_obj s6);
                               s7 = s6\<lparr>trace := trace s6 @
                                       personal_results r (song sd) res (sockets s6) ps\<rparr>;
                               s8 = emit_to (round_transition
                                       (if r < run_max_rounds then Some (r + 1) else None) 5)
                                       lobby_code s7;
                               s9 = sleep env 5 s8
                           in Inr (s9\<lparr>lobby_obj := (lobby_obj s9)\<lparr>round_no :=
                                        round_no (lobby_obj s9) + 1\<rparr>\<rparr>)))))"

text \<open>
  The winner: the scan over the players that keeps the first score above the highest
  seen so far, starting from \<open>-1\<close> and no winner.
\<close>

fun find_winner :: "player list \<Rightarrow> string option \<Rightarrow> int \<Rightarrow> string option" where
  "find_winner [] winner highest_score = winner"
| "find_winner (p # ps) winner highest_score =
     (if score p > highest_score then find_winner ps (Some (player_id p)) (score p)
      else find_winner ps winner highest_score)"

definition finish_game :: "string \<Rightarrow> sched \<Rightarrow> sched" where
  "finish_game lobby_code s =
     emit_to (game_ended (find_winner (players (lobby_obj s)) None (- 1))
                (players (lobby_obj s))) lobby_code s"

subsection \<open>The loop of \<^verbatim>\<open>run_game\<close>\<close>

text \<open>
  Neither a request served during a sleep nor the fetch loop writes the round counter, so
  a round that returns has counted it up by one. This is what makes the loop below
  terminate.
\<close>

lemma serve_round [simp]: "round_no (lobby_obj (serve v s)) = round_no (lobby_obj s)"
  by (cases v) (auto simp: Let_def split: option.splits)

lemma fold_serve_round [simp]: "round_no (lobby_obj (fold serve vs s)) = round_no (lobby_obj s)"
  by (induction vs arbitrary: s) auto

lemma sleep_round [simp]: "round_no (lobby_obj (sleep env secs s)) = round_no (lobby_obj s)"
  by (simp add: sleep_def)

lemma fetch_song_round: "round_no (lobby_obj (snd (fetch_song src env n s))) = round_no (lobby_obj s)"
proof (induction src env n s rule: fetch_song.induct)
  case (1 src env retry_count s)
  then show ?case by (subst fetch_song.simps) (simp split: option.splits)
qed

lemma round_body_round:
  "round_body src env code s = Inr s' \<Longrightarrow> round_no (lobby_obj s') = round_no (lobby_obj s) + 1"
  using fetch_song_round [of src env 0 "s\<lparr>lobby_obj := (lobby_obj s)\<lparr>guesses :=
                   Some (reset_guesses (players (lobby_obj s)))\<rparr>\<rparr>"]
  by (auto simp: round_body_def Let_def emit_to_def split: prod.splits option.splits)

text \<open>
  \<^verbatim>\<open>while lobby['round'] <= max_rounds\<close>. An exception in a round ends the task.
\<close>

function run_loop ::
  "(nat \<Rightarrow> fetched) \<Rightarrow> (nat \<Rightarrow> visit list) \<Rightarrow> string \<Rightarrow> sched \<Rightarrow>
     (py_exception \<times> sched) + sched" where
  "run_loop src env lobby_code s =
     (if round_no (lobby_obj s) \<le> run_max_rounds then
        (case round_body src env lobby_code s of
           Inl e \<Rightarrow> Inl e
         | Inr s' \<Rightarrow> run_loop src env lobby_code s')
      else Inr s)"
  by pat_completeness auto
termination run_loop
  by (relation "measure (\<lambda>(src, env, lobby_code, s). nat (run_max_rounds + 1 - round_no (lobby_obj s)))")
     (auto dest: round_body_round)

declare run_loop.simps [simp del]

text \<open>
  The states of the task each time the loop condition is tested, in order. The last one
  is the state in which the loop is left or, when a round raises, the state in which
  that round was entered.
\<close>

function loop_heads ::
  "(nat \<Rightarrow> fetched) \<Rightarrow> (nat \<Rightarrow> visit list) \<Rightarrow> string \<Rightarrow> sched \<Rightarrow> sched list" where
  "loop_heads src env lobby_code s =
     (if round_no (lobby_obj s) \<le> run_max_rounds then
        (case round_body src env lobby_code s of
           Inl e \<Rightarrow> [s]
         | Inr s' \<Rightarrow> s # loop_heads src env lobby_code s')
      else [s])"
  by pat_completeness auto
termination loop_heads
  by (relation "measure (\<lambda>(src, env, lobby_code, s). nat (run_max_rounds + 1 - round_no (lobby_obj s)))")
     (auto dest: round_body_round)

declare loop_heads.simps [simp del]

text \<open>
  \<^verbatim>\<open>run_game\<close> after the lobby has been looked up: the round counter is set to 1, the
  loop runs, and the winner is announced. When a round raises, the task ends there and
  nothing is announced.
\<close>

definition run_game_on ::
  "(nat \<Rightarrow> fetched) \<Rightarrow> (nat \<Rightarrow> visit list) \<Rightarrow> string \<Rightarrow> sched \<Rightarrow>
     (py_exception \<times> sched) + sched" where
  "run_game_on src env lobby_code s =
     (case run_loop src env lobby_code (s\<lparr>lobby_obj := (lobby_obj s)\<lparr>round_no := 1\<rparr>\<rparr>) of
        Inl e \<Rightarrow> Inl e
      | Inr s' \<Rightarrow> Inr (finish_game lobby_code s'))"


section \<open>The guess validator\<close>

subsection \<open>\<^verbatim>\<open>clean_title\<close>\<close>

text \<open>
  The whitespace of \<^verbatim>\<open>\s\<close> and of \<^verbatim>\<open>str.strip\<close> among the code points below 256: 9 to 13,
  28 to 32, 133 and 160.
\<close>

definition is_space :: "char \<Rightarrow> bool" where
  "is_space c =
     (let n = (of_char c :: nat) in
      (9 \<le> n \<and> n \<le> 13) \<or> (28 \<le> n \<and> n \<le> 32) \<or> n = 133 \<or> n = 160)"

text \<open>
  \<^verbatim>\<open>re.sub(r'\s*\([^)]*\)', '', title)\<close>. The pattern matches at a position when the
  whitespace there (if any) is followed by an opening parenthesis and a closing one
  comes later; the match then ends with the first closing parenthesis. \<open>match_parens\<close>
  returns the text after the match. The substitution scans from the left: where the
  pattern matches, the match is dropped and the scan goes on behind it; elsewhere the
  character is kept.
\<close>

fun after_close :: "string \<Rightarrow> string option" where
  "after_close [] = None"
| "after_close (c # cs) = (if c = CHR '')'' then Some cs else after_close cs)"

definition match_parens :: "string \<Rightarrow> string option" where
  "match_parens s =
     (case dropWhile is_space s of
        [] \<Rightarrow> None
      | c # cs \<Rightarrow> if c = CHR ''('' then after_close cs else None)"

lemma after_close_length: "after_close s = Some r \<Longrightarrow> length r < length s"
  by (induction s) (auto split: if_splits)

lemma match_parens_length: "match_parens s = Some r \<Longrightarrow> length r < length s"
proof -
  assume m: "match_parens s = Some r"
  then obtain c cs where d: "dropWhile is_space s = c # cs" and a: "after_close cs = Some r"
    by (auto simp: match_parens_def split: list.splits if_splits)
  have "length (dropWhile is_space s) \<le> length s" by (rule length_dropWhile_le)
  with d after_close_length [OF a] show ?thesis by simp
qed

function sub_parens :: "string \<Rightarrow> string" where
  "sub_parens s =
     (case s of
        [] \<Rightarrow> []
      | c # cs \<Rightarrow>
          (case match_parens s of
             Some rest \<Rightarrow> sub_parens rest
           | None \<Rightarrow> c # sub_parens cs))"
  by pat_completeness auto
termination sub_parens
  by (relation "measure length") (auto dest: match_parens_length)

declare sub_parens.simps [simp del]

text \<open>\<^verbatim>\<open>title.strip().lower()\<close>\<close>

definition strip :: "string \<Rightarrow> string" where
  "strip s = rev (dropWhile is_space (rev (dropWhile is_space s)))"

definition clean_title :: "string \<Rightarrow> string" where
  "clean_title title = lower (strip (sub_parens title))"

subsection \<open>\<^verbatim>\<open>difflib.SequenceMatcher\<close>\<close>

text \<open>
  \<^verbatim>\<open>SequenceMatcher(None, a, b)\<close> of the Python library, as \<^verbatim>\<open>is_close_match\<close> uses it: no
  junk function, and the automatic junk heuristic on. \<^verbatim>\<open>b2j\<close> maps an element to the
  increasing list of its positions in \<^verbatim>\<open>b\<close>; when \<^verbatim>\<open>b\<close> has 200 elements or more, the
  elements that occur more than \<^verbatim>\<open>len(b) // 100 + 1\<close> times are popular and have no entry.
\<close>

definition indices_of :: "'a \<Rightarrow> 'a list \<Rightarrow> nat list" where
  "indices_of x b = filter (\<lambda>j. b ! j = x) [0 ..< length b]"

definition popular :: "'a list \<Rightarrow> 'a \<Rightarrow> bool" where
  "popular b x = (length b \<ge> 200 \<and> length (indices_of x b) > length b div 100 + 1)"

definition b2j :: "'a list \<Rightarrow> 'a \<Rightarrow> nat list" where
  "b2j b x = (if popular b x then [] else indices_of x b)"

text \<open>
  \<^verbatim>\<open>find_longest_match\<close>. A block is \<^verbatim>\<open>(i, j, k)\<close>: \<^verbatim>\<open>a[i:i+k]\<close> matches \<^verbatim>\<open>b[j:j+k]\<close>. For each
  \<^verbatim>\<open>i\<close> the inner loop runs over the positions \<^verbatim>\<open>j\<close> of \<^verbatim>\<open>a[i]\<close> in \<^verbatim>\<open>b\<close>, skips those below
  \<^verbatim>\<open>blo\<close>, stops at the first one not below \<^verbatim>\<open>bhi\<close>, and records in \<^verbatim>\<open>newj2len[j]\<close> the length
  \<^verbatim>\<open>k = j2len.get(j-1, 0) + 1\<close> of the match that ends at \<^verbatim>\<open>a[i]\<close> and \<^verbatim>\<open>b[j]\<close>; a longer
  match than the best so far becomes the best, \<^verbatim>\<open>(i-k+1, j-k+1, k)\<close>. The key \<^verbatim>\<open>j-1\<close> of
  Python is \<open>-1\<close> for \<^verbatim>\<open>j = 0\<close> and never in the dictionary.
\<close>

type_synonym block = "nat \<times> nat \<times> nat"

definition j2len_get :: "(nat \<rightharpoonup> nat) \<Rightarrow> nat \<Rightarrow> nat" where
  "j2len_get j2len j =
     (case j of 0 \<Rightarrow> 0 | Suc j' \<Rightarrow> (case j2len j' of None \<Rightarrow> 0 | Some k \<Rightarrow> k))"

fun scan_row ::
  "nat \<Rightarrow> nat \<Rightarrow> nat \<Rightarrow> (nat \<rightharpoonup> nat) \<Rightarrow> nat list \<Rightarrow> (nat \<rightharpoonup> nat) \<times> block \<Rightarrow> (nat \<rightharpoonup> nat) \<times> block" where
  "scan_row i blo bhi j2len [] acc = acc"
| "scan_row i blo bhi j2len (j # js) (newj2len, (besti, bestj, bestsize)) =
     (if j < blo then scan_row i blo bhi j2len js (newj2len, (besti, bestj, bestsize))
      else if j \<ge> bhi then (newj2len, (besti, bestj, bestsize))
      else let k = j2len_get j2len j + 1 in
           scan_row i blo bhi j2len js
             (newj2len(j \<mapsto> k),
              if k > bestsize then (Suc i - k, Suc j - k, k) else (besti, bestj, bestsize)))"

fun scan_rows ::
  "'a list \<Rightarrow> 'a list \<Rightarrow> nat \<Rightarrow> nat \<Rightarrow> nat list \<Rightarrow> (nat \<rightharpoonup> nat) \<times> block \<Rightarrow> block" where
  "scan_rows a b blo bhi [] (j2len, best) = best"
| "scan_rows a b blo bhi (i # is) (j2len, best) =
     scan_rows a b blo bhi is (scan_row i blo bhi j2len (b2j b (a ! i)) (Map.empty, best))"

text \<open>
  The best block is then extended to the left and to the right while the neighbouring
  elements are equal. The set of junk elements is empty, so the two further loops of
  the library, which extend by junk elements only, never run.
\<close>

function extend_left :: "'a list \<Rightarrow> 'a list \<Rightarrow> nat \<Rightarrow> nat \<Rightarrow> block \<Rightarrow> block" where
  "extend_left a b alo blo (besti, bestj, bestsize) =
     (if besti > alo \<and> bestj > blo \<and> a ! (besti - 1) = b ! (bestj - 1)
      then extend_left a b alo blo (besti - 1, bestj - 1, bestsize + 1)
      else (besti, bestj, bestsize))"
  by pat_completeness auto
termination
  by (relation "measure (\<lambda>(a, b, alo, blo, besti, bestj, bestsize). besti)") auto

function extend_right :: "'a list \<Rightarrow> 'a list \<Rightarrow> nat \<Rightarrow> nat \<Rightarrow> block \<Rightarrow> block" where
  "extend_right a b ahi bhi (besti, bestj, bestsize) =
     (if besti + bestsize < ahi \<and> bestj + bestsize < bhi \<and>
         a ! (besti + bestsize) = b ! (bestj + bestsize)
      then extend_right a b ahi bhi (besti, bestj, bestsize + 1)
      else (besti, bestj, bestsize))"
  by pat_completeness auto
termination
  by (relation "measure (\<lambda>(a, b, ahi, bhi, besti, bestj, bestsize). ahi - (besti + bestsize))") auto

declare extend_left.simps [simp del] extend_right.simps [simp del]

definition find_longest_match :: "'a list \<Rightarrow> 'a list \<Rightarrow> nat \<Rightarrow> nat \<Rightarrow> nat \<Rightarrow> nat \<Rightarrow> block" where
  "find_longest_match a b alo ahi blo bhi =
     extend_right a b ahi bhi
       (extend_left a b alo blo
          (scan_rows a b blo bhi [alo ..< ahi] (Map.empty, (alo, blo, 0))))"

text \<open>
  A block found in a range lies inside the range; a block of length 0 may also be the
  initial \<^verbatim>\<open>(alo, blo, 0)\<close>. This is what makes the loop of \<^verbatim>\<open>get_matching_blocks\<close> terminate.
\<close>

definition row_bound :: "nat \<Rightarrow> nat \<Rightarrow> nat \<Rightarrow> (nat \<rightharpoonup> nat) \<Rightarrow> bool" where
  "row_bound alo blo n m = (\<forall>j v. m j = Some v \<longrightarrow> v \<le> n - alo \<and> v \<le> Suc j - blo)"

definition fits :: "nat \<Rightarrow> nat \<Rightarrow> nat \<Rightarrow> nat \<Rightarrow> block \<Rightarrow> bool" where
  "fits alo ahi blo bhi blk =
     (case blk of (i, j, k) \<Rightarrow>
        (i = alo \<and> j = blo \<and> k = 0) \<or> (alo \<le> i \<and> blo \<le> j \<and> i + k \<le> ahi \<and> j + k \<le> bhi))"

lemma j2len_get_bound:
  assumes "row_bound alo blo i j2len" "blo \<le> j"
  shows "j2len_get j2len j \<le> i - alo \<and> j2len_get j2len j \<le> j - blo"
proof (cases j)
  case 0
  then show ?thesis by (simp add: j2len_get_def)
next
  case (Suc j')
  show ?thesis
  proof (cases "j2len j'")
    case None
    with Suc show ?thesis by (simp add: j2len_get_def)
  next
    case (Some v)
    with assms(1) have "v \<le> i - alo \<and> v \<le> Suc j' - blo" by (simp add: row_bound_def)
    with Suc Some show ?thesis by (simp add: j2len_get_def)
  qed
qed

lemma scan_row_inv:
  assumes "alo \<le> i" "i < ahi" "row_bound alo blo i j2len"
    and "row_bound alo blo (Suc i) new" "fits alo ahi blo bhi best"
  shows "row_bound alo blo (Suc i) (fst (scan_row i blo bhi j2len js (new, best))) \<and>
         fits alo ahi blo bhi (snd (scan_row i blo bhi j2len js (new, best)))"
  using assms(4,5)
proof (induction js arbitrary: new best)
  case Nil
  then show ?case by simp
next
  case (Cons j js)
  obtain bi bj bk where best: "best = (bi, bj, bk)" by (cases best)
  show ?case
  proof (cases "j < blo")
    case True
    with Cons best show ?thesis by simp
  next
    case False
    show ?thesis
    proof (cases "j \<ge> bhi")
      case True
      with False Cons.prems best show ?thesis by simp
    next
      case inr: False
      let ?k = "j2len_get j2len j + 1"
      from False have bj: "blo \<le> j" by simp
      have kb: "j2len_get j2len j \<le> i - alo" "j2len_get j2len j \<le> j - blo"
        using j2len_get_bound [OF assms(3) bj] by simp_all
      have rb: "row_bound alo blo (Suc i) (new(j \<mapsto> ?k))"
        using Cons.prems(1) kb assms(1) bj by (auto simp: row_bound_def)
      have f1: "fits alo ahi blo bhi (Suc i - ?k, Suc j - ?k, ?k)"
        using kb assms(1,2) bj inr by (auto simp: fits_def)
      define best' where
        "best' = (if ?k > bk then (Suc i - ?k, Suc j - ?k, ?k) else (bi, bj, bk))"
      have fb: "fits alo ahi blo bhi best'"
        using f1 Cons.prems(2) best by (simp add: best'_def)
      have eq: "scan_row i blo bhi j2len (j # js) (new, best) =
          scan_row i blo bhi j2len js (new(j \<mapsto> ?k), best')"
        using False inr best by (simp add: Let_def best'_def)
      show ?thesis unfolding eq by (rule Cons.IH [OF rb fb])
    qed
  qed
qed

lemma scan_rows_inv:
  "alo \<le> i0 \<Longrightarrow> row_bound alo blo i0 j2len \<Longrightarrow> fits alo ahi blo bhi best \<Longrightarrow>
   fits alo ahi blo bhi (scan_rows a b blo bhi [i0 ..< ahi] (j2len, best))"
proof (induction "ahi - i0" arbitrary: i0 j2len best)
  case 0
  then show ?case by simp
next
  case (Suc n)
  then have lt: "i0 < ahi" by simp
  then have up: "[i0 ..< ahi] = i0 # [Suc i0 ..< ahi]" by (simp add: upt_rec)
  let ?r = "scan_row i0 blo bhi j2len (b2j b (a ! i0)) (Map.empty, best)"
  have e: "row_bound alo blo (Suc i0) Map.empty" by (simp add: row_bound_def)
  have inv: "row_bound alo blo (Suc i0) (fst ?r) \<and> fits alo ahi blo bhi (snd ?r)"
    using scan_row_inv [OF Suc.prems(1) lt Suc.prems(2) e Suc.prems(3)] .
  have n: "n = ahi - Suc i0" using Suc.hyps(2) by simp
  have "fits alo ahi blo bhi (scan_rows a b blo bhi [Suc i0 ..< ahi] (fst ?r, snd ?r))"
    using Suc.hyps(1) [OF n, of "fst ?r" "snd ?r"] Suc.prems(1) inv by simp
  then show ?case by (simp add: up)
qed

lemma extend_left_fits:
  "fits alo ahi blo bhi blk \<Longrightarrow> fits alo ahi blo bhi (extend_left a b alo blo blk)"
proof (induction a b alo blo blk rule: extend_left.induct)
  case (1 a b alo blo besti bestj bestsize)
  show ?case
  proof (cases "besti > alo \<and> bestj > blo \<and> a ! (besti - 1) = b ! (bestj - 1)")
    case True
    have "fits alo ahi blo bhi (besti - 1, bestj - 1, bestsize + 1)"
      using "1.prems" True by (auto simp: fits_def)
    from "1.IH" [OF True this] True show ?thesis by (subst extend_left.simps) simp
  next
    case False
    with "1.prems" show ?thesis by (subst extend_left.simps) auto
  qed
qed

lemma extend_right_fits:
  "fits alo ahi blo bhi blk \<Longrightarrow> fits alo ahi blo bhi (extend_right a b ahi bhi blk)"
proof (induction a b ahi bhi blk rule: extend_right.induct)
  case (1 a b ahi bhi besti bestj bestsize)
  show ?case
  proof (cases "besti + bestsize < ahi \<and> bestj + bestsize < bhi \<and>
         a ! (besti + bestsize) = b ! (bestj + bestsize)")
    case True
    have "fits alo ahi blo bhi (besti, bestj, bestsize + 1)"
      using "1.prems" True by (auto simp: fits_def)
    from "1.IH" [OF True this] True show ?thesis by (subst extend_right.simps) simp
  next
    case False
    with "1.prems" show ?thesis by (subst extend_right.simps) auto
  qed
qed

lemma find_longest_match_fits:
  "fits alo ahi blo bhi (find_longest_match a b alo ahi blo bhi)"
proof -
  have 0: "fits alo ahi blo bhi (alo, blo, 0)" by (simp add: fits_def)
  have e: "row_bound alo blo alo Map.empty" by (simp add: row_bound_def)
  show ?thesis
    unfolding find_longest_match_def
    by (intro extend_right_fits extend_left_fits scan_rows_inv [OF le_refl e 0])
qed

lemma find_longest_match_range:
  "find_longest_match a b alo ahi blo bhi = (i, j, k) \<Longrightarrow> k \<noteq> 0 \<Longrightarrow>
   alo \<le> i \<and> i + k \<le> ahi \<and> blo \<le> j \<and> j + k \<le> bhi"
  using find_longest_match_fits [of alo ahi blo bhi a b] by (auto simp: fits_def)

text \<open>
  \<^verbatim>\<open>get_matching_blocks\<close>: the ranges still to be searched are kept on a stack (the head
  of the list is its top). The longest match of a range is recorded and the parts of the
  range on its left and on its right are pushed, the right one last. The blocks are
  then sorted, adjacent blocks are merged, and the block \<^verbatim>\<open>(len(a), len(b), 0)\<close> is put
  at the end.
\<close>

type_synonym span = "nat \<times> nat \<times> nat \<times> nat"

definition span_weight :: "span \<Rightarrow> nat" where
  "span_weight sp = (case sp of (alo, ahi, blo, bhi) \<Rightarrow> 2 * (ahi - alo) + 1)"

function matching_loop :: "'a list \<Rightarrow> 'a list \<Rightarrow> span list \<Rightarrow> block list \<Rightarrow> block list" where
  "matching_loop a b [] matching_blocks = matching_blocks"
| "matching_loop a b ((alo, ahi, blo, bhi) # queue) matching_blocks =
     (case find_longest_match a b alo ahi blo bhi of
        (i, j, k) \<Rightarrow>
          if k \<noteq> 0 then
            matching_loop a b
              ((if i + k < ahi \<and> j + k < bhi then [(i + k, ahi, j + k, bhi)] else []) @
               (if alo < i \<and> blo < j then [(alo, i, blo, j)] else []) @ queue)
              (matching_blocks @ [(i, j, k)])
          else matching_loop a b queue matching_blocks)"
  by pat_completeness auto
termination
  by (relation "measure (\<lambda>(a, b, queue, blocks). sum_list (map span_weight queue))")
     (auto simp: span_weight_def dest!: find_longest_match_range [OF sym])

declare matching_loop.simps(2) [simp del]

fun collapse :: "block \<Rightarrow> block list \<Rightarrow> block list" where
  "collapse (i1, j1, k1) [] = (if k1 \<noteq> 0 then [(i1, j1, k1)] else [])"
| "collapse (i1, j1, k1) ((i2, j2, k2) # rest) =
     (if i1 + k1 = i2 \<and> j1 + k1 = j2 then collapse (i1, j1, k1 + k2) rest
      else (if k1 \<noteq> 0 then [(i1, j1, k1)] else []) @ collapse (i2, j2, k2) rest)"

definition get_matching_blocks :: "'a list \<Rightarrow> 'a list \<Rightarrow> block list" where
  "get_matching_blocks a b =
     collapse (0, 0, 0) (sort (matching_loop a b [(0, length a, 0, length b)] []))
       @ [(length a, length b, 0)]"

text \<open>
  \<^verbatim>\<open>ratio\<close> is \<^verbatim>\<open>2.0 * matches / length\<close>, and 1.0 for two empty sequences, compared with
  the threshold 0.7. The quotient is a rational number here. The float of Python is
  the quotient rounded to the nearest double, and \<^verbatim>\<open>0.7\<close> is the double nearest to
  7/10; rounding is monotone, and a quotient \<open>2m/n\<close> below 7/10 is below it by at least
  \<open>1/(10n)\<close>, so the comparison of the floats and the comparison of the rationals agree
  as long as the two strings together are shorter than \<open>10\<^sup>1\<^sup>5\<close> characters.
\<close>

definition calculate_ratio :: "nat \<Rightarrow> nat \<Rightarrow> rat" where
  "calculate_ratio matches len = (if len \<noteq> 0 then 2 * of_nat matches / of_nat len else 1)"

definition block_size :: "block \<Rightarrow> nat" where
  "block_size blk = (case blk of (i, j, k) \<Rightarrow> k)"

definition ratio :: "'a list \<Rightarrow> 'a list \<Rightarrow> rat" where
  "ratio a b =
     calculate_ratio (sum_list (map block_size (get_matching_blocks a b))) (length a + length b)"

definition threshold :: rat where
  "threshold = 7 / 10"

definition is_close_match :: "string \<Rightarrow> string \<Rightarrow> bool" where
  "is_close_match guess_text correct_song =
     (let guess_clean = clean_title guess_text;
          correct_clean = clean_title correct_song
      in ratio guess_clean correct_clean \<ge> threshold)"

subsection \<open>\<^verbatim>\<open>validate_guess\<close> and \<^verbatim>\<open>reset_score\<close>\<close>




section \<open>The host invariant and the example states\<close>

text \<open>
  The invariant of the data model: a non-empty player list has exactly one host. On the
  whole server it is stated together with the fact that a registered lobby is never
  empty (\<^verbatim>\<open>leave_lobby\<close> deletes a lobby when its last player leaves).
\<close>

definition one_host :: "player list \<Rightarrow> bool" where
  "one_host ps = (length (filter is_host ps) = 1)"

definition host_inv :: "player list \<Rightarrow> bool" where
  "host_inv ps = (ps \<noteq> [] \<longrightarrow> one_host ps)"

definition server_inv :: "server \<Rightarrow> bool" where
  "server_inv srv = (\<forall>lb \<in> ran (lobbies srv). players lb \<noteq> [] \<and> host_inv (players lb))"

text \<open>The players of a lobby after a request; none when the lobby is gone.\<close>

definition remaining_players :: "server \<Rightarrow> string \<Rightarrow> player list" where
  "remaining_players srv c = (case lobbies srv c of None \<Rightarrow> [] | Some lb \<Rightarrow> players lb)"

text \<open>Three browser sessions and three server states used as concrete inputs.\<close>

definition alice :: session where
  "alice = \<lparr>user_id = Some ''11111'', session_score = None\<rparr>"

definition bob :: session where
  "bob = \<lparr>user_id = Some ''22222'', session_score = None\<rparr>"

definition carol :: session where
  "carol = \<lparr>user_id = None, session_score = None\<rparr>"

definition empty_server :: server where
  "empty_server = \<lparr>lobbies = Map.empty, user_socket_map = Map.empty, emitted = [], tasks = []\<rparr>"

definition alice_server :: server where
  "alice_server = empty_server\<lparr>lobbies := [''123456'' \<mapsto> new_lobby ''11111'']\<rparr>"

definition duo_lobby :: lobby where
  "duo_lobby = (new_lobby ''11111'')\<lparr>players :=
        [\<lparr>player_id = ''11111'', is_host = True, score = 0\<rparr>, new_player ''22222'']\<rparr>"

definition duo_server :: server where
  "duo_server = empty_server\<lparr>lobbies := [''123456'' \<mapsto> duo_lobby]\<rparr>"

text \<open>
  The server states that can be reached from the empty server: by the requests, and by
  what a running task writes to a registered lobby, which is either the player list
  after a scoring step (complete or cut short by an exception) or a write that leaves
  the player list alone (the guesses, the round counter, the current song).
\<close>

inductive reachable :: "server \<Rightarrow> bool" where
  initial: "reachable empty_server"
| created: "reachable srv \<Longrightarrow> create_lobby draws rnd sess srv = Some (r, sess', srv') \<Longrightarrow>
     reachable srv'"
| joined: "reachable srv \<Longrightarrow> reachable (snd (snd (join_lobby code rnd sess srv)))"
| left: "reachable srv \<Longrightarrow> reachable (snd (leave_lobby code sess srv))"
| started: "reachable srv \<Longrightarrow> reachable (snd (start_game code sess srv))"
| guessed: "reachable srv \<Longrightarrow> submit_guess gs code sess srv = Inr (r, srv') \<Longrightarrow> reachable srv'"
| scored: "reachable srv \<Longrightarrow> lobbies srv c = Some lb \<Longrightarrow>
     reachable (srv\<lparr>lobbies := (lobbies srv)
       (c \<mapsto> lb\<lparr>players := fst (snd (score_players tbl title (players lb) res))\<rparr>)\<rparr>)"
| written: "reachable srv \<Longrightarrow> lobbies srv c = Some lb \<Longrightarrow> players lb' = players lb \<Longrightarrow>
     reachable (srv\<lparr>lobbies := (lobbies srv)(c \<mapsto> lb')\<rparr>)"

text \<open>
  A score carried over the requests of a sleep: every player listed afterwards either
  has score 0 (a player who joined) or has the id and the score of a player listed before.
\<close>

definition kept_scores :: "player list \<Rightarrow> player list \<Rightarrow> bool" where
  "kept_scores before after =
     (\<forall>p \<in> set after. score p = 0 \<or>
        (\<exists>q \<in> set before. player_id q = player_id p \<and> score q = score p))"

text \<open>The players and the registration flag of a task, which is all that joining and leaving read.\<close>

definition membership :: "sched \<Rightarrow> player list \<times> bool" where
  "membership s = (players (lobby_obj s), registered s)"

text \<open>
  A song source on which every attempt fails, a game during which no request arrives,
  one in which a second player joins during the second sleep, and the task of the lobby
  that \<^verbatim>\<open>11111\<close> created.
\<close>

definition always_failing :: "nat \<Rightarrow> fetched" where
  "always_failing n = fetch_failed"

definition no_visits :: "nat \<Rightarrow> visit list" where
  "no_visits k = []"


definition alice_task :: sched where
  "alice_task = \<lparr>lobby_obj = new_lobby ''11111'', registered = True, sockets = Map.empty,
                 fetches = 0, sleeps = 0, trace = []\<rparr>"

definition bob_joins :: "nat \<Rightarrow> visit list" where
  "bob_joins k = (if k = 1 then [join_request ''22222''] else [])"

text \<open>
  A source that always returns the same complete track, a game in which \<^verbatim>\<open>11111\<close>
  connects a socket and submits a guess during the first sleep, and what is observed of
  a round: the scores, the round counter and the trace.
\<close>

definition hello_source :: "nat \<Rightarrow> fetched" where
  "hello_source n = track (JStr ''Hello World'') (JStr ''Someone'') (JStr ''http://preview'')"

definition alice_guesses :: "nat \<Rightarrow> visit list" where
  "alice_guesses k =
     (if k = 0
      then [socket_join ''11111'' ''sid1'', guess_request (Some ''11111'') (JStr ''hello WORLD'')]
      else [])"

definition round_outcome ::
  "(py_exception \<times> sched) + sched \<Rightarrow> (int list \<times> int \<times> effect list) option" where
  "round_outcome r =
     (case r of
        Inl e \<Rightarrow> None
      | Inr s \<Rightarrow> Some (map score (players (lobby_obj s)), round_no (lobby_obj s), trace s))"

text \<open>A guess table and a player list for the scoring step.\<close>

definition sample_guesses :: guess_table where
  "sample_guesses =
     [Some ''11111'' \<mapsto> \<lparr>guess = JStr ''HELLO world'', submitted = True\<rparr>,
      Some ''22222'' \<mapsto> \<lparr>guess = JNull, submitted = False\<rparr>,
      Some ''33333'' \<mapsto> \<lparr>guess = JStr ''Hello'', submitted = True\<rparr>]"

definition sample_players :: "player list" where
  "sample_players =
     [\<lparr>player_id = ''11111'', is_host = True, score = 2\<rparr>,
      \<lparr>player_id = ''22222'', is_host = False, score = 1\<rparr>,
      \<lparr>player_id = ''33333'', is_host = False, score = 4\<rparr>,
      \<lparr>player_id = ''44444'', is_host = False, score = 0\<rparr>]"

text \<open>Scores are never negative: they start at 0 and are only counted up.\<close>

definition nonneg_scores :: "player list \<Rightarrow> bool" where
  "nonneg_scores ps = (\<forall>p \<in> set ps. 0 \<le> score p)"

text \<open>
  A task whose lobby has four players, two of them tied at the highest score, and what
  is observed of a finished run: the last effect of the trace and the final player list.
\<close>

definition tie_players :: "player list" where
  "tie_players =
     [\<lparr>player_id = ''11111'', is_host = True, score = 2\<rparr>,
      \<lparr>player_id = ''22222'', is_host = False, score = 5\<rparr>,
      \<lparr>player_id = ''33333'', is_host = False, score = 5\<rparr>,
      \<lparr>player_id = ''44444'', is_host = False, score = 1\<rparr>]"

definition tie_task :: sched where
  "tie_task = alice_task\<lparr>lobby_obj := (new_lobby ''11111'')\<lparr>players := tie_players\<rparr>\<rparr>"

definition outcome :: "(py_exception \<times> sched) + sched \<Rightarrow> (effect \<times> player list) option" where
  "outcome r = (case r of Inl e \<Rightarrow> None | Inr s \<Rightarrow> Some (last (trace s), players (lobby_obj s)))"

section \<open>Guesses that are text\<close>

text \<open>
  \<^verbatim>\<open>submit_guess\<close> stores whatever truthy JSON value the request carries, and the scoring
  step calls \<^verbatim>\<open>lower\<close> on it. A value is text or falsy when that call cannot fail: it is
  a JSON string, or it is not truthy and \<^verbatim>\<open>lower\<close> is never reached. The predicates below
  say this of a guess table, of the lobby of a task, of the requests that arrive during
  the sleeps of a game, and of the titles that the song source returns.
\<close>

definition text_or_falsy :: "json \<Rightarrow> bool" where
  "text_or_falsy v = (case v of JStr s \<Rightarrow> True | _ \<Rightarrow> \<not> truthy v)"

definition text_table :: "guess_table \<Rightarrow> bool" where
  "text_table tbl = (\<forall>k r. tbl k = Some r \<longrightarrow> text_or_falsy (guess r))"

definition text_sched :: "sched \<Rightarrow> bool" where
  "text_sched s = (case guesses (lobby_obj s) of None \<Rightarrow> False | Some tbl \<Rightarrow> text_table tbl)"

definition text_visit :: "visit \<Rightarrow> bool" where
  "text_visit v = (case v of guess_request uid g \<Rightarrow> text_or_falsy g | _ \<Rightarrow> True)"

definition text_visits :: "(nat \<Rightarrow> visit list) \<Rightarrow> bool" where
  "text_visits env = (\<forall>k. list_all text_visit (env k))"

definition text_titles :: "(nat \<Rightarrow> fetched) \<Rightarrow> bool" where
  "text_titles src =
     (\<forall>n. case src n of fetch_failed \<Rightarrow> True | track t a p \<Rightarrow> text_or_falsy t)"

text \<open>
  A game whose first round is not scored. The source returns a complete track at once;
  during the 30 seconds of the first round \<^verbatim>\<open>22222\<close> joins, \<^verbatim>\<open>11111\<close> submits the JSON
  number 5 as the guess, and \<^verbatim>\<open>22222\<close> submits the title in lower case. \<open>crash_players\<close>
  and \<open>crash_guesses\<close> are the player list and the guess table when the scoring step
  begins. Of a task that raised one observes the exception, the scores, the round
  counter and the trace.
\<close>

definition crash_players :: "player list" where
  "crash_players =
     [\<lparr>player_id = ''11111'', is_host = True, score = 0\<rparr>,
      \<lparr>player_id = ''22222'', is_host = False, score = 0\<rparr>]"

definition crash_guesses :: guess_table where
  "crash_guesses =
     [Some ''11111'' \<mapsto> \<lparr>guess = JNum 5, submitted = True\<rparr>,
      Some ''22222'' \<mapsto> \<lparr>guess = JStr ''hello world'', submitted = True\<rparr>]"

definition crash_source :: "nat \<Rightarrow> fetched" where
  "crash_source n = track (JStr ''Hello World'') (JStr ''Someone'') (JStr ''http://preview'')"

definition crash_visits :: "nat \<Rightarrow> visit list" where
  "crash_visits k =
     (if k = 0
      then [join_request ''22222'',
            guess_request (Some ''11111'') (JNum 5),
            guess_request (Some ''22222'') (JStr ''hello world'')]
      else [])"

definition raised_outcome ::
  "(py_exception \<times> sched) + sched \<Rightarrow> (py_exception \<times> int list \<times> int \<times> effect list) option" where
  "raised_outcome r =
     (case r of
        Inl (e, s) \<Rightarrow>
          Some (e, map score (players (lobby_obj s)), round_no (lobby_obj s), trace s)
      | Inr s \<Rightarrow> None)"

section \<open>Properties of lobby management\<close>

subsection \<open>The host invariant\<close>

lemma host_inv_new_lobby: "players (new_lobby uid) \<noteq> [] \<and> host_inv (players (new_lobby uid))"
  by (simp add: host_inv_def one_host_def new_lobby_def)

lemma host_inv_append: "host_inv ps \<Longrightarrow> ps \<noteq> [] \<Longrightarrow> host_inv (ps @ [new_player uid])"
  by (simp add: host_inv_def one_host_def new_player_def)

lemma filter_host_remove:
  "filter is_host (remove_player uid ps) = remove_player uid (filter is_host ps)"
  by (induction ps) (auto simp: remove_player_def)

lemma no_host_filter: "(\<not> list_ex is_host ps) = (filter is_host ps = [])"
  by (induction ps) auto

lemma host_inv_leave:
  assumes "host_inv ps"
  shows "host_inv (assign_host (remove_player uid ps))"
proof (cases "ps = []")
  case True
  then show ?thesis by (simp add: host_inv_def assign_host_def remove_player_def)
next
  case False
  with assms obtain h where h: "filter is_host ps = [h]"
    by (auto simp: host_inv_def one_host_def length_Suc_conv)
  have fr: "filter is_host (remove_player uid ps) = remove_player uid [h]"
    using filter_host_remove [of uid ps] h by simp
  show ?thesis
  proof (cases "player_id h = uid")
    case True
    with fr have none: "filter is_host (remove_player uid ps) = []"
      by (simp add: remove_player_def)
    then show ?thesis
      by (cases "remove_player uid ps")
         (auto simp: host_inv_def one_host_def assign_host_def no_host_filter split: if_splits)
  next
    case False
    with fr have one: "filter is_host (remove_player uid ps) = [h]"
      by (simp add: remove_player_def)
    then show ?thesis
      by (simp add: host_inv_def one_host_def assign_host_def no_host_filter)
  qed
qed

lemma assign_host_empty: "(assign_host ps = []) = (ps = [])"
  by (cases ps) (auto simp: assign_host_def)

lemma host_left_promotes:
  assumes "host_inv ps" "is_host_of uid ps" "remove_player uid ps = q # qs"
  shows "assign_host (remove_player uid ps) = q\<lparr>is_host := True\<rparr> # qs"
proof -
  from assms(2) have ne: "ps \<noteq> []" by (auto simp: is_host_of_def)
  with assms(1) obtain h where h: "filter is_host ps = [h]"
    by (auto simp: host_inv_def one_host_def length_Suc_conv)
  from assms(2) obtain p where "p \<in> set ps" "player_id p = uid" "is_host p"
    by (auto simp: is_host_of_def list_ex_iff)
  then have "p \<in> set (filter is_host ps)" by simp
  with h have "p = h" by simp
  with \<open>player_id p = uid\<close> have "remove_player uid [h] = []" by (simp add: remove_player_def)
  then have "filter is_host (remove_player uid ps) = []"
    using filter_host_remove [of uid ps] h by simp
  then show ?thesis using assms(3)
    by (auto simp: assign_host_def no_host_filter split: if_splits)
qed

lemma server_inv_upd:
  "server_inv srv \<Longrightarrow> players lb \<noteq> [] \<and> host_inv (players lb) \<Longrightarrow>
   lobbies srv' = (lobbies srv)(c \<mapsto> lb) \<Longrightarrow> server_inv srv'"
  unfolding server_inv_def ran_def by (auto split: if_splits)

lemma server_inv_del:
  "server_inv srv \<Longrightarrow> lobbies srv' = (lobbies srv)(c := None) \<Longrightarrow> server_inv srv'"
  unfolding server_inv_def ran_def by (auto split: if_splits)

lemma server_inv_same:
  "server_inv srv \<Longrightarrow> lobbies srv' = lobbies srv \<Longrightarrow> server_inv srv'"
  unfolding server_inv_def by simp

lemma find_lobby_Some:
  "find_lobby code srv = Some (c, lb) \<Longrightarrow> lobbies srv c = Some lb \<and> code = Some c \<and> c \<noteq> []"
  by (auto simp: find_lobby_def split: option.splits if_splits)

lemma find_lobby_inv:
  "server_inv srv \<Longrightarrow> find_lobby code srv = Some (c, lb) \<Longrightarrow>
   players lb \<noteq> [] \<and> host_inv (players lb)"
  by (auto simp: server_inv_def ran_def dest!: find_lobby_Some)

lemma create_preserves:
  assumes "server_inv srv" "create_lobby draws rnd sess srv = Some (r, sess', srv')"
  shows "server_inv srv'"
  using assms
  by (auto simp: create_lobby_def split: option.splits
           intro: server_inv_upd [OF _ host_inv_new_lobby])

lemma create_seeds_host:
  assumes "create_lobby draws rnd sess srv = Some (r, sess', srv')"
  shows "\<exists>c. fst r = code_body c True \<and> lobbies srv c = None \<and>
             lobbies srv' = (lobbies srv)(c \<mapsto> new_lobby (session_user rnd sess))"
proof -
  have "generate_lobby_code ds m = Some c \<Longrightarrow> m c = None" for ds m c
    by (induction ds) (auto split: if_splits)
  with assms show ?thesis
    by (auto simp: create_lobby_def split: option.splits)
qed

lemma join_preserves:
  assumes "server_inv srv"
  shows "server_inv (snd (snd (join_lobby code rnd sess srv)))"
proof (cases "find_lobby code srv")
  case None
  with assms show ?thesis by (simp add: join_lobby_def)
next
  case (Some a)
  obtain c lb where a: "a = (c, lb)" by (cases a)
  have hi: "players lb \<noteq> [] \<and> host_inv (players lb)"
    using find_lobby_inv [OF assms] Some a by simp
  then have app: "players (lb\<lparr>players := players lb @ [new_player u]\<rparr>) \<noteq> [] \<and>
      host_inv (players (lb\<lparr>players := players lb @ [new_player u]\<rparr>))" for u
    by (simp add: host_inv_append)
  show ?thesis using assms Some a
    by (auto simp: join_lobby_def Let_def intro: server_inv_upd [OF _ app] server_inv_same)
qed

lemma leave_preserves:
  assumes "server_inv srv"
  shows "server_inv (snd (leave_lobby code sess srv))"
proof (cases "find_lobby code srv")
  case None
  with assms show ?thesis by (simp add: leave_lobby_def)
next
  case (Some a)
  obtain c lb where a: "a = (c, lb)" by (cases a)
  have hi: "host_inv (players lb)"
    using find_lobby_inv [OF assms] Some a by simp
  show ?thesis
  proof (cases "user_id sess")
    case None
    with assms Some a show ?thesis by (simp add: leave_lobby_def)
  next
    case (Some uid)
    have ok: "remove_player uid (players lb) \<noteq> [] \<Longrightarrow>
        players (lb\<lparr>players := assign_host (remove_player uid (players lb))\<rparr>) \<noteq> [] \<and>
        host_inv (players (lb\<lparr>players := assign_host (remove_player uid (players lb))\<rparr>))"
      using host_inv_leave [OF hi, of uid] by (simp add: assign_host_empty)
    show ?thesis
    proof (cases "remove_player uid (players lb) = []")
      case True
      with assms \<open>find_lobby code srv = Some a\<close> a Some show ?thesis
        by (auto simp: leave_lobby_def Let_def intro: server_inv_del)
    next
      case False
      with assms \<open>find_lobby code srv = Some a\<close> a Some show ?thesis
        by (auto simp: leave_lobby_def Let_def intro: server_inv_upd [OF _ ok])
    qed
  qed
qed

lemma leave_promotes:
  assumes "server_inv srv" "find_lobby code srv = Some (c, lb)" "user_id sess = Some uid"
    "is_host_of uid (players lb)" "remove_player uid (players lb) = q # qs"
  shows "lobbies (snd (leave_lobby code sess srv)) c =
         Some (lb\<lparr>players := q\<lparr>is_host := True\<rparr> # qs\<rparr>)"
proof -
  have hi: "host_inv (players lb)" using find_lobby_inv [OF assms(1,2)] by simp
  have "assign_host (q # qs) = q\<lparr>is_host := True\<rparr> # qs"
    using host_left_promotes [OF hi assms(4,5)] assms(5) by simp
  with assms show ?thesis by (simp add: leave_lobby_def Let_def)
qed

text \<open>
  Claim C5. On every server state in which each registered lobby has a non-empty player
  list with exactly one host, \<^verbatim>\<open>create_lobby\<close>, \<^verbatim>\<open>join_lobby\<close> and \<^verbatim>\<open>leave_lobby\<close> lead to
  such a state again: a created lobby is registered under a free code with its creator
  as the only player and host, a join appends a player who is not host, and when the
  host leaves while others remain, the first remaining player of the list is made host.
\<close>

theorem host_invariant_preserved:
  assumes "server_inv srv"
  shows "(create_lobby draws rnd sess srv = Some (r, sess', srv') \<longrightarrow>
            server_inv srv' \<and>
            (\<exists>c. lobbies srv c = None \<and>
                 lobbies srv' = (lobbies srv)(c \<mapsto>
                   new_lobby (session_user rnd sess)\<lparr>players :=
                     [\<lparr>player_id = session_user rnd sess, is_host = True, score = 0\<rparr>]\<rparr>))) \<and>
         server_inv (snd (snd (join_lobby code rnd sess srv))) \<and>
         server_inv (snd (leave_lobby code sess srv)) \<and>
         (find_lobby code srv = Some (c, lb) \<and> user_id sess = Some uid \<and>
          is_host_of uid (players lb) \<and> remove_player uid (players lb) = q # qs \<longrightarrow>
            lobbies (snd (leave_lobby code sess srv)) c =
              Some (lb\<lparr>players := q\<lparr>is_host := True\<rparr> # qs\<rparr>))"
proof -
  have eq: "new_lobby u\<lparr>players := [\<lparr>player_id = u, is_host = True, score = 0\<rparr>]\<rparr> = new_lobby u"
    for u by (simp add: new_lobby_def)
  show ?thesis
    using create_preserves [OF assms] create_seeds_host [of draws rnd sess srv r sess' srv']
      join_preserves [OF assms] leave_preserves [OF assms] leave_promotes [OF assms]
    by (auto simp: eq)
qed

text \<open>An instance: a third user creates a lobby on a server that already has one, and the host of a lobby of two leaves it.\<close>

theorem host_invariant_preserved_witness:
  "server_inv duo_server \<and>
   (\<exists>srv'. create_lobby [''123456'', ''654321''] ''33333'' carol duo_server =
       Some ((code_body ''654321'' True, 200), carol\<lparr>user_id := Some ''33333''\<rparr>, srv') \<and>
       server_inv srv' \<and> lobbies srv' ''654321'' = Some (new_lobby ''33333'')) \<and>
   server_inv (snd (snd (join_lobby (Some ''123456'') ''33333'' carol duo_server))) \<and>
   server_inv (snd (leave_lobby (Some ''123456'') alice duo_server)) \<and>
   lobbies (snd (leave_lobby (Some ''123456'') alice duo_server)) ''123456'' =
     Some (duo_lobby\<lparr>players := [\<lparr>player_id = ''22222'', is_host = True, score = 0\<rparr>]\<rparr>)"
proof -
  have inv: "server_inv duo_server"
    by (simp add: server_inv_def duo_server_def duo_lobby_def empty_server_def new_lobby_def
        new_player_def host_inv_def one_host_def)
  have fl: "find_lobby (Some ''123456'') duo_server = Some (''123456'', duo_lobby)"
    by (simp add: find_lobby_def duo_server_def empty_server_def)
  define srv' where "srv' = duo_server\<lparr>lobbies := (lobbies duo_server)
      (''654321'' \<mapsto> new_lobby ''33333'')\<rparr>"
  have cr: "create_lobby [''123456'', ''654321''] ''33333'' carol duo_server =
      Some ((code_body ''654321'' True, 200), carol\<lparr>user_id := Some ''33333''\<rparr>, srv')"
    by (simp add: create_lobby_def duo_server_def empty_server_def carol_def
        ensure_user_id_def session_user_def srv'_def)
  have rm: "remove_player ''11111'' (players duo_lobby) = new_player ''22222'' # []"
    by (simp add: remove_player_def duo_lobby_def new_player_def)
  have ho: "is_host_of ''11111'' (players duo_lobby)"
    by (simp add: is_host_of_def duo_lobby_def)
  have "lobbies srv' ''654321'' = Some (new_lobby ''33333'')"
    by (simp add: srv'_def)
  then show ?thesis
    using inv cr fl rm ho
      host_invariant_preserved [OF inv, of "[''123456'', ''654321'']" "''33333''" carol
        "(code_body ''654321'' True, 200)" "carol\<lparr>user_id := Some ''33333''\<rparr>" srv'
        "Some ''123456''" "''123456''" duo_lobby "''11111''" "new_player ''22222''" "[]"]
      host_invariant_preserved [OF inv, of "[]" "[]" alice "(success_body, 200)" alice duo_server
        "Some ''123456''" "''123456''" duo_lobby "''11111''" "new_player ''22222''" "[]"]
    by (simp add: alice_def new_player_def)
qed


subsection \<open>Leaving a lobby\<close>

text \<open>
  Claim C8, as stated, fails: \<^verbatim>\<open>leave_lobby\<close> answers 400 \<^verbatim>\<open>'Not in a lobby'\<close> when the session
  has no \<^verbatim>\<open>user_id\<close>, not when the user is missing from the lobby. Here the user \<^verbatim>\<open>22222\<close>
  leaves a lobby whose only player is \<^verbatim>\<open>11111\<close>: the answer is \<^verbatim>\<open>{'success': True}\<close>, no
  player is removed, and \<^verbatim>\<open>player_left\<close> is broadcast.
\<close>

theorem leave_by_non_member_succeeds:
  "leave_lobby (Some ''123456'') bob alice_server =
     ((success_body, 200),
      alice_server\<lparr>emitted := [(''123456'', player_left ''22222'')]\<rparr>)"
  by (simp add: leave_lobby_def find_lobby_def alice_server_def empty_server_def bob_def
      remove_player_def new_lobby_def assign_host_def)

lemma assign_host_ids: "map player_id (assign_host ps) = map player_id ps"
  by (cases ps) (auto simp: assign_host_def)

lemma remove_player_ids:
  "map player_id (remove_player uid ps) = filter (\<lambda>i. i \<noteq> uid) (map player_id ps)"
  by (induction ps) (auto simp: remove_player_def)

lemma remaining_after_leave:
  assumes "find_lobby code srv = Some (c, lb)" "user_id sess = Some uid"
  shows "fst (leave_lobby code sess srv) = (success_body, 200) \<and>
     map player_id (remaining_players (snd (leave_lobby code sess srv)) c) =
       filter (\<lambda>i. i \<noteq> uid) (map player_id (players lb))"
proof (cases "remove_player uid (players lb) = []")
  case True
  then have "filter (\<lambda>i. i \<noteq> uid) (map player_id (players lb)) = []"
    using remove_player_ids [of uid "players lb"] by simp
  with True assms show ?thesis
    by (simp add: leave_lobby_def Let_def remaining_players_def)
next
  case False
  with assms show ?thesis
    by (simp add: leave_lobby_def Let_def remaining_players_def assign_host_ids remove_player_ids)
qed

lemma filter_distinct_member:
  "distinct xs \<Longrightarrow> x \<in> set xs \<Longrightarrow> length (filter (\<lambda>i. i \<noteq> x) xs) + 1 = length xs"
proof (induction xs)
  case Nil
  then show ?case by simp
next
  case (Cons y ys)
  show ?case
  proof (cases "y = x")
    case True
    with Cons.prems have "x \<notin> set ys" by simp
    then have "filter (\<lambda>i. i \<noteq> x) ys = ys" by (auto simp: filter_id_conv)
    with True show ?thesis by simp
  next
    case False
    with Cons show ?thesis by simp
  qed
qed

text \<open>
  Claim C8, amended. On a registered lobby, a leave request from a session without a
  user id fails with 400 \<^verbatim>\<open>'Not in a lobby'\<close> and changes nothing. A request from a session
  with a user id succeeds, and the ids of the players that remain are the ids before
  without the caller's: exactly one player fewer when the caller was a member (the ids
  of a lobby being distinct), and the same number of players when the caller was not.
\<close>

theorem leave_lobby_outcomes:
  assumes "find_lobby code srv = Some (c, lb)"
  shows "(user_id sess = None \<longrightarrow>
            leave_lobby code sess srv = ((error_body ''Not in a lobby'', 400), srv)) \<and>
         (\<forall>uid. user_id sess = Some uid \<longrightarrow>
            fst (leave_lobby code sess srv) = (success_body, 200) \<and>
            map player_id (remaining_players (snd (leave_lobby code sess srv)) c) =
              filter (\<lambda>i. i \<noteq> uid) (map player_id (players lb)) \<and>
            (is_member uid (players lb) \<and> distinct (map player_id (players lb)) \<longrightarrow>
               length (remaining_players (snd (leave_lobby code sess srv)) c) + 1 =
                 length (players lb)) \<and>
            (\<not> is_member uid (players lb) \<longrightarrow>
               length (remaining_players (snd (leave_lobby code sess srv)) c) =
                 length (players lb)))"
proof -
  have none: "user_id sess = None \<longrightarrow>
      leave_lobby code sess srv = ((error_body ''Not in a lobby'', 400), srv)"
    using assms by (simp add: leave_lobby_def)
  have some: "fst (leave_lobby code sess srv) = (success_body, 200) \<and>
      map player_id (remaining_players (snd (leave_lobby code sess srv)) c) =
        filter (\<lambda>i. i \<noteq> uid) (map player_id (players lb)) \<and>
      (is_member uid (players lb) \<and> distinct (map player_id (players lb)) \<longrightarrow>
         length (remaining_players (snd (leave_lobby code sess srv)) c) + 1 =
           length (players lb)) \<and>
      (\<not> is_member uid (players lb) \<longrightarrow>
         length (remaining_players (snd (leave_lobby code sess srv)) c) =
           length (players lb))" if u: "user_id sess = Some uid" for uid
  proof -
    let ?rest = "remaining_players (snd (leave_lobby code sess srv)) c"
    have r: "fst (leave_lobby code sess srv) = (success_body, 200)"
      "map player_id ?rest = filter (\<lambda>i. i \<noteq> uid) (map player_id (players lb))"
      using remaining_after_leave [OF assms u] by simp_all
    have len: "length ?rest = length (filter (\<lambda>i. i \<noteq> uid) (map player_id (players lb)))"
      using r(2) by (metis length_map)
    have mem: "is_member uid (players lb) = (uid \<in> set (map player_id (players lb)))"
      by (auto simp: is_member_def list_ex_iff)
    have a: "is_member uid (players lb) \<and> distinct (map player_id (players lb)) \<longrightarrow>
        length ?rest + 1 = length (players lb)"
      using filter_distinct_member [of "map player_id (players lb)" uid] len mem by simp
    have b: "\<not> is_member uid (players lb) \<longrightarrow> length ?rest = length (players lb)"
    proof
      assume "\<not> is_member uid (players lb)"
      then have "filter (\<lambda>i. i \<noteq> uid) (map player_id (players lb)) = map player_id (players lb)"
        using mem by (auto simp: filter_id_conv)
      with len show "length ?rest = length (players lb)" by simp
    qed
    from r a b show ?thesis by blast
  qed
  from none some show ?thesis by blast
qed

text \<open>An instance on a lobby of two: a session without a user id is rejected, and the second player leaves.\<close>

theorem leave_lobby_outcomes_witness:
  "find_lobby (Some ''123456'') duo_server = Some (''123456'', duo_lobby) \<and>
   leave_lobby (Some ''123456'') carol duo_server = ((error_body ''Not in a lobby'', 400), duo_server) \<and>
   fst (leave_lobby (Some ''123456'') bob duo_server) = (success_body, 200) \<and>
   map player_id (remaining_players (snd (leave_lobby (Some ''123456'') bob duo_server)) ''123456'') =
     [''11111'']"
proof -
  have fl: "find_lobby (Some ''123456'') duo_server = Some (''123456'', duo_lobby)"
    by (simp add: find_lobby_def duo_server_def empty_server_def)
  show ?thesis
    using fl leave_lobby_outcomes [OF fl, of carol] leave_lobby_outcomes [OF fl, of bob]
    by (simp add: carol_def bob_def duo_lobby_def new_lobby_def new_player_def)
qed

subsection \<open>Starting a game\<close>

text \<open>
  Claim C3, as stated, fails: \<^verbatim>\<open>start_game\<close> never reads the status. The host of a
  lobby starts the game twice; both requests succeed and two background tasks are
  started for the same lobby.
\<close>

theorem second_start_spawns_again:
  "fst (start_game (Some ''123456'') alice alice_server) = (success_body, 200) \<and>
   fst (start_game (Some ''123456'') alice
         (snd (start_game (Some ''123456'') alice alice_server))) = (success_body, 200) \<and>
   tasks (snd (start_game (Some ''123456'') alice
         (snd (start_game (Some ''123456'') alice alice_server)))) = [''123456'', ''123456'']"
  by (simp add: start_game_def find_lobby_def alice_server_def empty_server_def alice_def
      is_host_of_def new_lobby_def)

text \<open>
  Claim C3, amended. Every start request of the host on a registered lobby succeeds,
  whatever the status was: it writes the status \<^verbatim>\<open>playing\<close>, broadcasts \<^verbatim>\<open>game_started\<close> and
  starts exactly one background task for that lobby.
\<close>

theorem start_by_host:
  assumes "find_lobby code srv = Some (c, lb)" "user_id sess = Some uid" "uid \<noteq> []"
    "is_host_of uid (players lb)"
  shows "start_game code sess srv =
           ((success_body, 200),
            srv\<lparr>lobbies := (lobbies srv)(c \<mapsto> lb\<lparr>status := playing\<rparr>),
                emitted := emitted srv @ [(c, game_started)],
                tasks := tasks srv @ [c]\<rparr>)"
  using assms by (simp add: start_game_def)

text \<open>An instance: the creator of a lobby starts the game.\<close>

theorem start_by_host_witness:
  "find_lobby (Some ''123456'') alice_server = Some (''123456'', new_lobby ''11111'') \<and>
   start_game (Some ''123456'') alice alice_server =
     ((success_body, 200),
      alice_server\<lparr>lobbies := [''123456'' \<mapsto> (new_lobby ''11111'')\<lparr>status := playing\<rparr>],
                   emitted := [(''123456'', game_started)],
                   tasks := [''123456'']\<rparr>)"
proof -
  have fl: "find_lobby (Some ''123456'') alice_server = Some (''123456'', new_lobby ''11111'')"
    by (simp add: find_lobby_def alice_server_def empty_server_def)
  have u: "user_id alice = Some ''11111''" by (simp add: alice_def)
  have h: "is_host_of ''11111'' (players (new_lobby ''11111''))"
    by (simp add: is_host_of_def new_lobby_def)
  show ?thesis
    using fl start_by_host [OF fl u _ h] by (simp add: alice_server_def empty_server_def)
qed

subsection \<open>Submitting a guess before the game has started\<close>

text \<open>
  Claim C9. A lobby that has just been created has no \<^verbatim>\<open>'guesses'\<close> key. A well-formed
  guess for it passes the request check and then reads \<^verbatim>\<open>lobby['guesses']\<close>: the handler
  raises \<^verbatim>\<open>KeyError\<close> where the claim asks for a structured failure.
\<close>

theorem submit_guess_before_start_raises:
  "create_lobby [''123456''] ''11111'' carol empty_server =
     Some ((code_body ''123456'' True, 200), alice, alice_server) \<and>
   submit_guess (JStr ''hello'') (Some ''123456'') alice alice_server =
     Inl (KeyError ''guesses'')"
  by (simp add: create_lobby_def submit_guess_def find_lobby_def alice_server_def
      empty_server_def alice_def carol_def new_lobby_def ensure_user_id_def session_user_def)


section \<open>Properties of the scheduler\<close>

subsection \<open>Visits and requests\<close>

text \<open>
  A visit does to the lobby dictionary of the task what the request handler does to the
  registered lobby: the same player is appended, the same players are removed (and the
  lobby is unregistered when none is left), the same guess is recorded.
\<close>

lemma serve_join_agrees:
  assumes "find_lobby code srv = Some (c, lb)" "registered s" "lobby_obj s = lb"
  shows "lobbies (snd (snd (join_lobby code rnd sess srv))) c =
         Some (lobby_obj (serve (join_request (session_user rnd sess)) s))"
  using assms find_lobby_Some [OF assms(1)]
  by (auto simp: join_lobby_def Let_def)

lemma serve_leave_agrees:
  assumes "find_lobby code srv = Some (c, lb)" "registered s" "lobby_obj s = lb"
    "user_id sess = Some uid"
  shows "lobbies (snd (leave_lobby code sess srv)) c =
           (if registered (serve (leave_request uid) s)
            then Some (lobby_obj (serve (leave_request uid) s)) else None)"
  using assms find_lobby_Some [OF assms(1)]
  by (auto simp: leave_lobby_def Let_def)

lemma serve_guess_agrees:
  assumes "find_lobby code srv = Some (c, lb)" "registered s" "lobby_obj s = lb"
    "submit_guess g code sess srv = Inr (r, srv')"
  shows "lobbies srv' c = Some (lobby_obj (serve (guess_request (user_id sess) g) s))"
  using assms find_lobby_Some [OF assms(1)]
  by (auto simp: submit_guess_def split: option.splits if_splits)

subsection \<open>The scoring step\<close>

text \<open>
  The comparison of the scoring step returns a verdict when the guess is not truthy or
  when guess and title are both text, and raises \<^verbatim>\<open>AttributeError\<close> otherwise.
\<close>

lemma truthy_text: "truthy v \<Longrightarrow> text_or_falsy v \<Longrightarrow> \<exists>t. v = JStr t \<and> t \<noteq> []"
  by (cases v) (auto simp: text_or_falsy_def)

lemma is_correct_text:
  "text_or_falsy pg \<Longrightarrow>
   is_correct pg (JStr t) = Inr (\<exists>g. pg = JStr g \<and> g \<noteq> [] \<and> lower g = lower t)"
  by (cases pg) (auto simp: is_correct_def text_or_falsy_def)

lemma is_correct_Inr:
  "is_correct pg title = Inr ok \<Longrightarrow>
   ok = (\<exists>g t. pg = JStr g \<and> g \<noteq> [] \<and> title = JStr t \<and> lower g = lower t)"
  by (cases pg; cases title) (auto simp: is_correct_def split: if_splits)

lemma is_correct_raises:
  "truthy pg \<Longrightarrow> \<forall>g. pg \<noteq> JStr g \<Longrightarrow> is_correct pg title = Inl (AttributeError ''lower'')"
  by (cases pg) (auto simp: is_correct_def)

text \<open>
  One step of the loop over the players, and what the loop keeps whether it raises or
  not: the length of the list, the ids and the host flags.
\<close>

lemma score_players_Cons:
  "score_players tbl title (p # ps) res =
     (case is_correct (player_guess tbl (player_id p)) title of
        Inl e \<Rightarrow> (Some e, p # ps, res)
      | Inr ok \<Rightarrow>
          (let rest = score_players tbl title ps
                        (res(player_id p \<mapsto> (player_guess tbl (player_id p), ok)))
           in (fst rest, (if ok then p\<lparr>score := score p + 1\<rparr> else p) # fst (snd rest),
               snd (snd rest))))"
  by (simp add: Let_def case_prod_beta split: sum.splits)

lemmas score_players_step = score_players_Cons Let_def

lemma score_players_length:
  "length (fst (snd (score_players tbl title ps res))) = length ps"
  by (induction ps arbitrary: res)
     (simp_all add: score_players_step del: score_players.simps(2) split: sum.splits)

lemma score_players_ids:
  "map player_id (fst (snd (score_players tbl title ps res))) = map player_id ps"
  by (induction ps arbitrary: res)
     (simp_all add: score_players_step del: score_players.simps(2) split: sum.splits)

lemma score_players_hosts:
  "map is_host (fst (snd (score_players tbl title ps res))) = map is_host ps"
  by (induction ps arbitrary: res)
     (simp_all add: score_players_step del: score_players.simps(2) split: sum.splits)

text \<open>The loop does not raise when the title is text and every recorded guess is text or falsy.\<close>

lemma score_players_text:
  "text_table tbl \<Longrightarrow> fst (score_players tbl (JStr t) ps res) = None"
proof (induction ps arbitrary: res)
  case Nil
  show ?case by simp
next
  case (Cons p ps)
  have "text_or_falsy (player_guess tbl (player_id p))"
    using Cons.prems by (auto simp: player_guess_def text_table_def text_or_falsy_def split: option.splits)
  from is_correct_text [OF this, of t] Cons.IH [OF Cons.prems] show ?case
    by (simp add: score_players_step del: score_players.simps(2))
qed

lemma score_players_nth:
  "fst (score_players tbl title ps res) = None \<Longrightarrow> i < length ps \<Longrightarrow>
   (\<exists>ok. is_correct (player_guess tbl (player_id (ps ! i))) title = Inr ok \<and>
     fst (snd (score_players tbl title ps res)) ! i =
       (if ok then (ps ! i)\<lparr>score := score (ps ! i) + 1\<rparr> else ps ! i))"
proof (induction ps arbitrary: res i)
  case Nil
  then show ?case by simp
next
  case (Cons p ps)
  from Cons.prems(1) obtain ok where ok: "is_correct (player_guess tbl (player_id p)) title = Inr ok"
    by (cases "is_correct (player_guess tbl (player_id p)) title")
       (simp_all add: score_players_step del: score_players.simps(2))
  define rest where "rest = score_players tbl title ps
      (res(player_id p \<mapsto> (player_guess tbl (player_id p), ok)))"
  have whole: "score_players tbl title (p # ps) res =
      (fst rest, (if ok then p\<lparr>score := score p + 1\<rparr> else p) # fst (snd rest), snd (snd rest))"
    using ok unfolding rest_def by (simp add: score_players_step del: score_players.simps(2))
  have rest: "fst rest = None" using Cons.prems(1) unfolding whole by simp
  show ?case
  proof (cases i)
    case 0
    with ok show ?thesis unfolding whole by simp
  next
    case (Suc j)
    with Cons.prems have "j < length ps" by simp
    from Cons.IH [OF rest [unfolded rest_def] this] obtain ok' where
      a: "is_correct (player_guess tbl (player_id (ps ! j))) title = Inr ok'" and
      b: "fst (snd rest) ! j = (if ok' then (ps ! j)\<lparr>score := score (ps ! j) + 1\<rparr> else ps ! j)"
      unfolding rest_def by blast
    have "is_correct (player_guess tbl (player_id ((p # ps) ! i))) title = Inr ok' \<and>
        fst (snd (score_players tbl title (p # ps) res)) ! i =
          (if ok' then ((p # ps) ! i)\<lparr>score := score ((p # ps) ! i) + 1\<rparr> else (p # ps) ! i)"
      using a b Suc unfolding whole by simp
    then show ?thesis by blast
  qed
qed

text \<open>
  When the loop does not raise, it follows the rule of the specification: the score of a
  player rises by exactly 1 if the guess table has a record under the player's id whose
  guess is a non-empty text equal to the title after both are lowercased, and is
  unchanged in every other case.
\<close>

lemma scoring_rule:
  assumes "score_players tbl title ps res = (None, ps', res')" and "i < length ps"
  shows "length ps' = length ps \<and>
     player_id (ps' ! i) = player_id (ps ! i) \<and>
     is_host (ps' ! i) = is_host (ps ! i) \<and>
     score (ps' ! i) = score (ps ! i) +
       (if (\<exists>r g t. tbl (Some (player_id (ps ! i))) = Some r \<and> guess r = JStr g \<and>
                    g \<noteq> [] \<and> title = JStr t \<and> lower g = lower t)
        then 1 else 0)"
proof -
  have n: "fst (score_players tbl title ps res) = None"
    and ps': "ps' = fst (snd (score_players tbl title ps res))" using assms(1) by simp_all
  have len: "length ps' = length ps" by (simp add: ps' score_players_length)
  obtain ok where ok: "is_correct (player_guess tbl (player_id (ps ! i))) title = Inr ok"
    and nth: "ps' ! i = (if ok then (ps ! i)\<lparr>score := score (ps ! i) + 1\<rparr> else ps ! i)"
    using score_players_nth [OF n assms(2)] ps' by blast
  have "ok = (\<exists>r g t. tbl (Some (player_id (ps ! i))) = Some r \<and> guess r = JStr g \<and>
                    g \<noteq> [] \<and> title = JStr t \<and> lower g = lower t)"
    using is_correct_Inr [OF ok] by (auto simp: player_guess_def split: option.splits)
  with nth len show ?thesis by (cases ok) simp_all
qed

lemma lower_sample: "lower ''HELLO world'' = ''hello world''" "lower ''Hello World'' = ''hello world''"
  "lower ''Hello'' = ''hello''"
  by code_simp+

text \<open>An instance with four players: a correct guess in other letter case, no guess, a wrong guess, and no record.\<close>

lemma scoring_rule_example:
  "map score (fst (snd (score_players sample_guesses (JStr ''Hello World'') sample_players Map.empty))) =
     [3, 1, 4, 0]"
proof -
  have t: "text_table sample_guesses"
    by (simp add: text_table_def sample_guesses_def text_or_falsy_def)
  obtain e ps' res' where
    sp: "score_players sample_guesses (JStr ''Hello World'') sample_players Map.empty = (e, ps', res')"
    by (cases "score_players sample_guesses (JStr ''Hello World'') sample_players Map.empty")
  have e: "e = None" using score_players_text [OF t, of "''Hello World''" sample_players Map.empty] sp
    by simp
  have "length ps' = 4 \<and> score (ps' ! 0) = 3 \<and> score (ps' ! 1) = 1 \<and>
      score (ps' ! 2) = 4 \<and> score (ps' ! 3) = 0"
    using scoring_rule [OF sp [unfolded e], of 0] scoring_rule [OF sp [unfolded e], of 1]
      scoring_rule [OF sp [unfolded e], of 2] scoring_rule [OF sp [unfolded e], of 3]
    by (simp add: sample_players_def sample_guesses_def lower_sample)
  then have "map score ps' = [3, 1, 4, 0]"
    by (auto simp: list_eq_iff_nth_eq nth_Cons' numeral_eq_Suc less_Suc_eq)
  with sp show ?thesis by simp
qed

text \<open>
  The scoring step inside a round: the song is fetched at the first attempt, the player
  guesses the title in other letter case during the 30 seconds, and the round ends with
  the score at 1 and the personal result sent to the player's socket.
\<close>

lemma played_round_example:
  "round_outcome (round_body hello_source alice_guesses ''123456'' alice_task) =
     Some ([1], 1,
       [emit (round_started 0 30
          \<lparr>song = JStr ''Hello World'', artist = JStr ''Someone'',
           audio_url = JStr ''http://preview''\<rparr>) ''123456'',
        slept 30,
        emit (round_ended_personal 0 (JStr ''Hello World'') (JStr ''hello WORLD'') True) ''sid1'',
        emit (round_transition (Some 1) 5) ''123456'',
        slept 5])"
  by code_simp

text \<open>
  The game of \<open>crash_visits\<close>: the scoring step of the first round raises, and the task
  ends there with both scores at 0 and the round counter at 1.
\<close>

lemma crashed_game_example:
  "raised_outcome (run_game_on crash_source crash_visits ''123456'' alice_task) =
     Some (AttributeError ''lower'', [0, 0], 1,
       [emit (round_started 1 30
          \<lparr>song = JStr ''Hello World'', artist = JStr ''Someone'',
           audio_url = JStr ''http://preview''\<rparr>) ''123456'',
        slept 30])"
  by code_simp

lemma crash_guess_matches:
  "player_guess crash_guesses ''22222'' = JStr ''hello world'' \<and>
   lower ''hello world'' = lower ''Hello World''"
proof -
  have "lower ''hello world'' = lower ''Hello World''" by code_simp
  then show ?thesis by (simp add: player_guess_def crash_guesses_def)
qed

lemma crash_scoring:
  "score_players crash_guesses (JStr ''Hello World'') crash_players Map.empty =
     (Some (AttributeError ''lower''), crash_players, Map.empty)"
  by (simp add: crash_players_def crash_guesses_def player_guess_def is_correct_def)

text \<open>
  Claim C1 fails on the code. The claim gives every player of the list one more point
  exactly when the recorded guess is present, non-empty and equal to the title up to
  letter case. \<^verbatim>\<open>submit_guess\<close> accepts any truthy JSON value as a guess, and the scoring
  loop calls \<^verbatim>\<open>lower\<close> on it. With the players \<^verbatim>\<open>11111\<close> and \<^verbatim>\<open>22222\<close>, the guess 5 (a
  number) recorded for \<^verbatim>\<open>11111\<close> and the guess \<^verbatim>\<open>hello world\<close> recorded for \<^verbatim>\<open>22222\<close>, and
  the title \<^verbatim>\<open>Hello World\<close>, the loop raises \<^verbatim>\<open>AttributeError\<close> at the first player: the
  guess of \<^verbatim>\<open>22222\<close> equals the title up to letter case, and the score of \<^verbatim>\<open>22222\<close> stays
  at 0. The exception is not caught, so the task of the game ends in its first round.
\<close>

theorem scoring_stops_at_non_text_guess:
  "score_players crash_guesses (JStr ''Hello World'') crash_players Map.empty =
     (Some (AttributeError ''lower''), crash_players, Map.empty) \<and>
   map score crash_players = [0, 0] \<and>
   player_guess crash_guesses ''22222'' = JStr ''hello world'' \<and>
   lower ''hello world'' = lower ''Hello World'' \<and>
   raised_outcome (run_game_on crash_source crash_visits ''123456'' alice_task) =
     Some (AttributeError ''lower'', [0, 0], 1,
       [emit (round_started 1 30
          \<lparr>song = JStr ''Hello World'', artist = JStr ''Someone'',
           audio_url = JStr ''http://preview''\<rparr>) ''123456'',
        slept 30])"
  using crash_scoring crash_guess_matches crashed_game_example
  by (simp add: crash_players_def)

subsection \<open>When the task returns, and the round counter\<close>

text \<open>
  Requests that carry text keep the guess table of the task free of values on which
  \<^verbatim>\<open>lower\<close> fails, through every sleep and every fetch.
\<close>

lemma serve_text: "text_sched s \<Longrightarrow> text_visit v \<Longrightarrow> text_sched (serve v s)"
  by (cases v)
     (auto simp: text_sched_def text_visit_def text_table_def Let_def split: option.splits)

lemma fold_serve_text: "text_sched s \<Longrightarrow> list_all text_visit vs \<Longrightarrow> text_sched (fold serve vs s)"
proof (induction vs arbitrary: s)
  case Nil
  then show ?case by simp
next
  case (Cons v vs)
  then have "text_sched (serve v s)" "list_all text_visit vs" by (simp_all add: serve_text)
  from Cons.IH [OF this] show ?case by simp
qed

lemma sleep_text: "text_visits env \<Longrightarrow> text_sched s \<Longrightarrow> text_sched (sleep env secs s)"
proof -
  assume e: "text_visits env" and t: "text_sched s"
  have "text_sched (s\<lparr>trace := trace s @ [slept secs]\<rparr>)" using t by (simp add: text_sched_def)
  moreover have "list_all text_visit (env (sleeps s))" using e by (simp add: text_visits_def)
  ultimately have "text_sched (fold serve (env (sleeps s)) (s\<lparr>trace := trace s @ [slept secs]\<rparr>))"
    by (rule fold_serve_text)
  then show ?thesis by (simp add: sleep_def text_sched_def)
qed

lemma fetch_song_text:
  "text_visits env \<Longrightarrow> text_sched s \<Longrightarrow> text_sched (snd (fetch_song src env n s))"
proof (induction src env n s rule: fetch_song.induct)
  case (1 src env retry_count s)
  show ?case
  proof (cases "retry_count < max_retries")
    case False
    with 1 show ?thesis by (subst fetch_song.simps) simp
  next
    case True
    show ?thesis
    proof (cases "complete_song (src (fetches s))")
      case (Some sd)
      with True "1.prems" show ?thesis by (subst fetch_song.simps) (simp add: text_sched_def)
    next
      case None
      have "text_sched (s\<lparr>fetches := fetches s + 1\<rparr>)" using "1.prems" by (simp add: text_sched_def)
      then have "text_sched (sleep env 1 (s\<lparr>fetches := fetches s + 1\<rparr>))"
        using "1.prems"(1) by (intro sleep_text)
      with "1.IH" [OF True None "1.prems"(1)] True None show ?thesis
        by (subst fetch_song.simps) simp
    qed
  qed
qed

text \<open>A song that was fetched is one that the source returned, so its title is text when the source's titles are.\<close>

lemma fetch_song_source:
  "fst (fetch_song src env n s) = Some sd \<Longrightarrow> \<exists>m. complete_song (src m) = Some sd"
proof (induction src env n s rule: fetch_song.induct)
  case (1 src env retry_count s)
  show ?case
  proof (cases "retry_count < max_retries")
    case False
    with "1.prems" show ?thesis by (subst (asm) fetch_song.simps) simp
  next
    case True
    show ?thesis
    proof (cases "complete_song (src (fetches s))")
      case (Some x)
      with True "1.prems" have "x = sd" by (subst (asm) fetch_song.simps) simp
      with Some show ?thesis by blast
    next
      case None
      with True "1.prems" have "fst (fetch_song src env (retry_count + 1)
          (sleep env 1 (s\<lparr>fetches := fetches s + 1\<rparr>))) = Some sd"
        by (subst (asm) fetch_song.simps) simp
      from "1.IH" [OF True None this] show ?thesis .
    qed
  qed
qed

lemma title_text:
  assumes "text_titles src" "complete_song (src m) = Some sd"
  shows "\<exists>t. song sd = JStr t"
proof (cases "src m")
  case fetch_failed
  with assms(2) show ?thesis by simp
next
  case (track t a p)
  with assms(1) have "text_or_falsy t"
    by (simp add: text_titles_def split: fetched.splits) (metis fetched.simps(5) track)
  moreover from track assms(2) have "truthy t" "song sd = t" by (auto split: if_splits)
  ultimately show ?thesis using truthy_text by blast
qed

text \<open>A round returns when the requests and the titles are text.\<close>

lemma round_body_returns_text:
  assumes "text_visits env" "text_titles src"
  shows "\<exists>s'. round_body src env code s = Inr s'"
proof -
  let ?s1 = "s\<lparr>lobby_obj := (lobby_obj s)\<lparr>guesses :=
                   Some (reset_guesses (players (lobby_obj s)))\<rparr>\<rparr>"
  obtain sd s2 where f: "fetch_song src env 0 ?s1 = (sd, s2)" by (cases "fetch_song src env 0 ?s1")
  have "text_sched ?s1"
    by (auto simp: text_sched_def text_table_def reset_guesses_def text_or_falsy_def
        split: option.splits if_splits)
  then have t2: "text_sched s2"
    using fetch_song_text [OF assms(1), of ?s1 src 0] f by simp
  show ?thesis
  proof (cases sd)
    case None
    with f show ?thesis by (simp add: round_body_def Let_def)
  next
    case (Some x)
    then obtain t where t: "song x = JStr t"
      using fetch_song_source [of src env 0 ?s1 x] f title_text [OF assms(2)] by auto
    let ?s4 = "emit_to (round_started (round_no (lobby_obj s2)) 30 x) code
                 (s2\<lparr>lobby_obj := (lobby_obj s2)\<lparr>current_song := Some x\<rparr>\<rparr>)"
    have "text_sched ?s4" using t2 by (simp add: text_sched_def emit_to_def)
    then have "text_sched (sleep env 30 ?s4)" using assms(1) by (intro sleep_text)
    then obtain tbl where g: "guesses (lobby_obj (sleep env 30 ?s4)) = Some tbl" "text_table tbl"
      by (auto simp: text_sched_def split: option.splits)
    obtain ps res where sp: "score_players tbl (JStr t) (players (lobby_obj (sleep env 30 ?s4)))
        Map.empty = (None, ps, res)"
      using score_players_text [OF g(2), of t "players (lobby_obj (sleep env 30 ?s4))" Map.empty]
      by (cases "score_players tbl (JStr t) (players (lobby_obj (sleep env 30 ?s4))) Map.empty") auto
    with f Some g(1) t show ?thesis
      by (simp add: round_body_def Let_def)
  qed
qed

text \<open>A round that raises leaves the counter where it was.\<close>

lemma round_body_raised_round:
  assumes "round_body src env code s = Inl (e, s')"
  shows "round_no (lobby_obj s') = round_no (lobby_obj s)"
proof -
  let ?s1 = "s\<lparr>lobby_obj := (lobby_obj s)\<lparr>guesses :=
                   Some (reset_guesses (players (lobby_obj s)))\<rparr>\<rparr>"
  obtain sd s2 where f: "fetch_song src env 0 ?s1 = (sd, s2)" by (cases "fetch_song src env 0 ?s1")
  have r2: "round_no (lobby_obj s2) = round_no (lobby_obj s)"
    using fetch_song_round [of src env 0 ?s1] f by simp
  from assms f obtain x where x: "sd = Some x"
    by (cases sd) (auto simp: round_body_def Let_def)
  let ?s5 = "sleep env 30 (emit_to (round_started (round_no (lobby_obj s2)) 30 x) code
                 (s2\<lparr>lobby_obj := (lobby_obj s2)\<lparr>current_song := Some x\<rparr>\<rparr>))"
  have r5: "round_no (lobby_obj ?s5) = round_no (lobby_obj s)"
    using r2 by (simp add: emit_to_def)
  have "s' = ?s5 \<or> (\<exists>ps. s' = ?s5\<lparr>lobby_obj := (lobby_obj ?s5)\<lparr>players := ps\<rparr>\<rparr>)"
    using assms f x
    by (auto simp: round_body_def Let_def split: option.splits prod.splits)
  with r5 show ?thesis by auto
qed

text \<open>
  The loop tests its condition with the counter at consecutive values, starting from the
  value it is entered with. It returns with the counter one above \<^verbatim>\<open>max_rounds\<close>, or it
  ends with the exception of a round, the counter at the number of that round.
\<close>

lemma loop_rounds:
  "round_no (lobby_obj s) \<le> run_max_rounds + 1 \<Longrightarrow>
   \<exists>k. round_no (lobby_obj s) \<le> k \<and> k \<le> run_max_rounds + 1 \<and>
       map (\<lambda>x. round_no (lobby_obj x)) (loop_heads src env code s) = [round_no (lobby_obj s) .. k] \<and>
       (case run_loop src env code s of
          Inr s' \<Rightarrow> k = run_max_rounds + 1 \<and> round_no (lobby_obj s') = k
        | Inl (e, s') \<Rightarrow> k \<le> run_max_rounds \<and> round_no (lobby_obj s') = k)"
proof (induction src env code s rule: run_loop.induct)
  case (1 src env code s)
  let ?r = "round_no (lobby_obj s)"
  show ?case
  proof (cases "?r \<le> run_max_rounds")
    case False
    with "1.prems" have r: "?r = run_max_rounds + 1" by simp
    have "loop_heads src env code s = [s]"
      using False by (subst loop_heads.simps) simp
    moreover have "run_loop src env code s = Inr s"
      using False by (subst run_loop.simps) simp
    ultimately show ?thesis using r by (intro exI [of _ ?r]) simp
  next
    case True
    show ?thesis
    proof (cases "round_body src env code s")
      case (Inl a)
      obtain e s' where a: "a = (e, s')" by (cases a)
      have h1: "loop_heads src env code s = [s]"
        using True Inl a by (subst loop_heads.simps) simp
      have h2: "run_loop src env code s = Inl (e, s')"
        using True Inl a by (subst run_loop.simps) simp
      have "round_no (lobby_obj s') = ?r"
        using round_body_raised_round Inl a by blast
      with h1 h2 True show ?thesis by (intro exI [of _ ?r]) simp
    next
      case (Inr s1)
      have r1: "round_no (lobby_obj s1) = ?r + 1" using round_body_round [OF Inr] .
      then have le: "round_no (lobby_obj s1) \<le> run_max_rounds + 1" using True by simp
      from "1.IH" [OF True Inr le] obtain k where
        k: "?r + 1 \<le> k" "k \<le> run_max_rounds + 1"
          "map (\<lambda>x. round_no (lobby_obj x)) (loop_heads src env code s1) = [?r + 1 .. k]"
          "case run_loop src env code s1 of
             Inr s' \<Rightarrow> k = run_max_rounds + 1 \<and> round_no (lobby_obj s') = k
           | Inl (e, s') \<Rightarrow> k \<le> run_max_rounds \<and> round_no (lobby_obj s') = k"
        unfolding r1 by blast
      have h1: "loop_heads src env code s = s # loop_heads src env code s1"
        using True Inr by (subst loop_heads.simps) simp
      have h2: "run_loop src env code s = run_loop src env code s1"
        using True Inr by (subst run_loop.simps) simp
      have up: "[?r .. k] = ?r # [?r + 1 .. k]" using k(1) by (simp add: upto_rec1)
      from k up show ?thesis unfolding h1 h2 by (intro exI [of _ k]) simp
    qed
  qed
qed

lemma run_loop_returns_text:
  "text_visits env \<Longrightarrow> text_titles src \<Longrightarrow> round_no (lobby_obj s) \<le> run_max_rounds + 1 \<Longrightarrow>
   \<exists>s'. run_loop src env code s = Inr s' \<and> round_no (lobby_obj s') = run_max_rounds + 1"
proof (induction src env code s rule: run_loop.induct)
  case (1 src env code s)
  show ?case
  proof (cases "round_no (lobby_obj s) \<le> run_max_rounds")
    case False
    with "1.prems" show ?thesis by (subst run_loop.simps) simp
  next
    case True
    obtain s1 where b: "round_body src env code s = Inr s1"
      using round_body_returns_text [OF "1.prems"(1,2)] by blast
    have r1: "round_no (lobby_obj s1) \<le> run_max_rounds + 1"
      using round_body_round [OF b] True by simp
    from "1.IH" [OF True b "1.prems"(1,2) r1] True b show ?thesis
      by (subst run_loop.simps) simp
  qed
qed

lemma text_always_failing: "text_titles always_failing"
  by (simp add: text_titles_def always_failing_def)

lemma text_no_visits: "text_visits no_visits"
  by (simp add: text_visits_def no_visits_def)




subsection \<open>A round without a song\<close>

lemma serve_trace [simp]: "trace (serve v s) = trace s"
  by (cases v) (auto simp: Let_def split: option.splits)

lemma serve_fetches [simp]: "fetches (serve v s) = fetches s"
  by (cases v) (auto simp: Let_def split: option.splits)

lemma serve_sleeps [simp]: "sleeps (serve v s) = sleeps s"
  by (cases v) (auto simp: Let_def split: option.splits)

lemma fold_serve_trace [simp]: "trace (fold serve vs s) = trace s"
  by (induction vs arbitrary: s) auto

lemma fold_serve_fetches [simp]: "fetches (fold serve vs s) = fetches s"
  by (induction vs arbitrary: s) auto

lemma fold_serve_sleeps [simp]: "sleeps (fold serve vs s) = sleeps s"
  by (induction vs arbitrary: s) auto

lemma sleep_trace [simp]: "trace (sleep env secs s) = trace s @ [slept secs]"
  by (simp add: sleep_def)

lemma sleep_fetches [simp]: "fetches (sleep env secs s) = fetches s"
  by (simp add: sleep_def)

lemma sleep_sleeps [simp]: "sleeps (sleep env secs s) = sleeps s + 1"
  by (simp add: sleep_def)

lemma serve_membership:
  "membership s = membership t \<Longrightarrow> membership (serve v s) = membership (serve v t)"
  by (cases v) (auto simp: membership_def Let_def split: option.splits)

lemma fold_serve_membership:
  "membership s = membership t \<Longrightarrow> membership (fold serve vs s) = membership (fold serve vs t)"
proof (induction vs arbitrary: s t)
  case Nil
  then show ?case by simp
next
  case (Cons v vs)
  from Cons.IH [OF serve_membership [OF Cons.prems]] show ?case by simp
qed

lemma sleep_membership:
  "membership s = membership t \<Longrightarrow> sleeps s = k \<Longrightarrow>
   membership (sleep env secs s) = membership (fold serve (env k) t)"
  using fold_serve_membership [of "s\<lparr>trace := trace s @ [slept secs]\<rparr>" t "env (sleeps s)"]
  by (simp add: sleep_def membership_def)

lemma membership_updates [simp]:
  "membership (s\<lparr>fetches := n\<rparr>) = membership s"
  "membership (s\<lparr>trace := tr\<rparr>) = membership s"
  "membership (emit_to ev room s) = membership s"
  "membership (s\<lparr>lobby_obj := (lobby_obj s)\<lparr>guesses := g\<rparr>\<rparr>) = membership s"
  "membership (s\<lparr>lobby_obj := (lobby_obj s)\<lparr>round_no := r\<rparr>\<rparr>) = membership s"
  "membership (s\<lparr>lobby_obj := (lobby_obj s)\<lparr>current_song := cs\<rparr>\<rparr>) = membership s"
  by (simp_all add: membership_def emit_to_def)

lemma kept_scores_refl: "kept_scores ps ps"
  by (auto simp: kept_scores_def)

lemma kept_scores_trans: "kept_scores a b \<Longrightarrow> kept_scores b c \<Longrightarrow> kept_scores a c"
  unfolding kept_scores_def by (metis)

lemma kept_scores_assign_host: "kept_scores ps (assign_host ps)"
  by (cases ps) (auto simp: kept_scores_def assign_host_def)

lemma kept_scores_remove: "kept_scores ps (remove_player uid ps)"
  by (auto simp: kept_scores_def remove_player_def)

lemma serve_kept: "kept_scores (players (lobby_obj s)) (players (lobby_obj (serve v s)))"
proof (cases v)
  case (leave_request uid)
  have "kept_scores (players (lobby_obj s)) (assign_host (remove_player uid (players (lobby_obj s))))"
    using kept_scores_trans [OF kept_scores_remove kept_scores_assign_host] .
  with leave_request show ?thesis
    by (auto simp: Let_def kept_scores_refl) (simp add: kept_scores_def)
next
  case (join_request uid)
  then show ?thesis by (auto simp: kept_scores_def new_player_def)
qed (auto simp: kept_scores_refl split: option.splits)

lemma fold_serve_kept:
  "kept_scores (players (lobby_obj s)) (players (lobby_obj (fold serve vs s)))"
proof (induction vs arbitrary: s)
  case Nil
  show ?case by (simp add: kept_scores_refl)
next
  case (Cons v vs)
  show ?case using kept_scores_trans [OF serve_kept Cons.IH] by simp
qed

lemma fetch_song_three_failures:
  assumes "complete_song (src (fetches s)) = None"
    "complete_song (src (fetches s + 1)) = None"
    "complete_song (src (fetches s + 2)) = None"
  shows "fetch_song src env 0 s =
    (None, sleep env 1 ((sleep env 1 ((sleep env 1 (s\<lparr>fetches := fetches s + 1\<rparr>))
                \<lparr>fetches := fetches s + 2\<rparr>))\<lparr>fetches := fetches s + 3\<rparr>))"
proof -
  let ?a = "sleep env 1 (s\<lparr>fetches := fetches s + 1\<rparr>)"
  let ?b = "sleep env 1 (?a\<lparr>fetches := fetches s + 2\<rparr>)"
  let ?c = "sleep env 1 (?b\<lparr>fetches := fetches s + 3\<rparr>)"
  have 3: "fetch_song src env 3 ?c = (None, ?c)"
    by (subst fetch_song.simps) (simp add: max_retries_def)
  have fa: "fetches ?a = fetches s + 1" and fb: "fetches ?b = fetches s + 2" by simp_all
  have 2: "fetch_song src env 2 ?b = (None, ?c)"
    using 3 assms(3) fb
    by (subst fetch_song.simps) (simp add: max_retries_def numeral_3_eq_3 numeral_2_eq_2)
  have 1: "fetch_song src env 1 ?a = (None, ?c)"
    using 2 assms(2) fa
    by (subst fetch_song.simps) (simp add: max_retries_def numeral_2_eq_2)
  show ?thesis
    using 1 assms(1) by (subst fetch_song.simps) (simp add: max_retries_def)
qed

text \<open>
  Claim C2. When the three fetch attempts of a round fail, the round returns normally
  with the trace extended by three pauses of one second (one after each failed attempt),
  the \<^verbatim>\<open>round_started\<close> event with the error text and duration 30, and a pause of five
  seconds; the round counter is one higher and three fetches were made. The task writes
  no player: the player list afterwards is the one that the requests served during the
  four sleeps produce from the list before, and these keep every score. The loop then
  goes on with the next round.
\<close>

theorem skipped_round:
  assumes "complete_song (src (fetches s)) = None"
    "complete_song (src (fetches s + 1)) = None"
    "complete_song (src (fetches s + 2)) = None"
  shows "\<exists>s'. round_body src env code s = Inr s' \<and>
     trace s' = trace s @
       [slept 1, slept 1, slept 1,
        emit (round_started_error (round_no (lobby_obj s)) 30
                ''Failed to fetch song data. Skipping round.'') code,
        slept 5] \<and>
     round_no (lobby_obj s') = round_no (lobby_obj s) + 1 \<and>
     fetches s' = fetches s + 3 \<and>
     players (lobby_obj s') =
       players (lobby_obj (fold serve
         (env (sleeps s) @ env (sleeps s + 1) @ env (sleeps s + 2) @ env (sleeps s + 3)) s)) \<and>
     kept_scores (players (lobby_obj s)) (players (lobby_obj s')) \<and>
     (round_no (lobby_obj s) \<le> run_max_rounds \<longrightarrow>
        run_loop src env code s = run_loop src env code s')"
proof -
  let ?s1 = "s\<lparr>lobby_obj := (lobby_obj s)\<lparr>guesses :=
                   Some (reset_guesses (players (lobby_obj s)))\<rparr>\<rparr>"
  let ?a = "sleep env 1 (?s1\<lparr>fetches := fetches s + 1\<rparr>)"
  let ?b = "sleep env 1 (?a\<lparr>fetches := fetches s + 2\<rparr>)"
  let ?c = "sleep env 1 (?b\<lparr>fetches := fetches s + 3\<rparr>)"
  let ?msg = "round_started_error (round_no (lobby_obj s)) 30
                ''Failed to fetch song data. Skipping round.''"
  let ?d = "sleep env 5 (emit_to ?msg code ?c)"
  let ?s' = "?d\<lparr>lobby_obj := (lobby_obj ?d)\<lparr>round_no := round_no (lobby_obj ?d) + 1\<rparr>\<rparr>"
  have f: "fetch_song src env 0 ?s1 = (None, ?c)"
    using fetch_song_three_failures [of src ?s1 env] assms by simp
  have rc: "round_no (lobby_obj ?c) = round_no (lobby_obj s)" by simp
  have body: "round_body src env code s = Inr ?s'"
    using f rc by (simp add: round_body_def Let_def)
  have tr: "trace ?s' = trace s @ [slept 1, slept 1, slept 1, emit ?msg code, slept 5]"
    by (simp add: emit_to_def)
  have rn: "round_no (lobby_obj ?s') = round_no (lobby_obj s) + 1"
    by (simp add: emit_to_def)
  have fe: "fetches ?s' = fetches s + 3" by (simp add: emit_to_def)
  let ?v0 = "env (sleeps s)" and ?v1 = "env (sleeps s + 1)"
    and ?v2 = "env (sleeps s + 2)" and ?v3 = "env (sleeps s + 3)"
  have ma: "membership ?a = membership (fold serve ?v0 s)"
    by (rule sleep_membership) simp_all
  have mb: "membership ?b = membership (fold serve ?v1 (fold serve ?v0 s))"
    by (rule sleep_membership) (use ma in simp_all)
  have mc: "membership ?c = membership (fold serve ?v2 (fold serve ?v1 (fold serve ?v0 s)))"
    by (rule sleep_membership) (use mb in simp_all)
  have md: "membership ?d =
      membership (fold serve ?v3 (fold serve ?v2 (fold serve ?v1 (fold serve ?v0 s))))"
    by (rule sleep_membership) (use mc in \<open>simp_all add: emit_to_def\<close>)
  have "membership ?s' = membership (fold serve (?v0 @ ?v1 @ ?v2 @ ?v3) s)"
    using md by simp
  then have pl: "players (lobby_obj ?s') =
       players (lobby_obj (fold serve (?v0 @ ?v1 @ ?v2 @ ?v3) s))"
    by (simp only: membership_def prod.inject)
  have ks: "kept_scores (players (lobby_obj s)) (players (lobby_obj ?s'))"
    using fold_serve_kept [of s "?v0 @ ?v1 @ ?v2 @ ?v3"] pl by simp
  have lp: "round_no (lobby_obj s) \<le> run_max_rounds \<longrightarrow>
        run_loop src env code s = run_loop src env code ?s'"
    using body by (subst run_loop.simps) simp
  show ?thesis
    using body tr rn fe pl ks lp by blast
qed

text \<open>An instance: every fetch fails, and a second player joins during the second sleep of the round.\<close>

theorem skipped_round_witness:
  "complete_song (always_failing (fetches alice_task)) = None \<and>
   (\<exists>s'. round_body always_failing bob_joins ''123456'' alice_task = Inr s' \<and>
     trace s' =
       [slept 1, slept 1, slept 1,
        emit (round_started_error 0 30 ''Failed to fetch song data. Skipping round.'') ''123456'',
        slept 5] \<and>
     round_no (lobby_obj s') = 1 \<and>
     players (lobby_obj s') =
       [\<lparr>player_id = ''11111'', is_host = True, score = 0\<rparr>,
        \<lparr>player_id = ''22222'', is_host = False, score = 0\<rparr>])"
proof -
  have f: "complete_song (always_failing n) = None" for n
    by (simp add: always_failing_def)
  show ?thesis
    using skipped_round [of always_failing alice_task bob_joins "''123456''", OF f f f] f
    by (auto simp: alice_task_def bob_joins_def new_lobby_def new_player_def is_member_def)
qed

subsection \<open>The winner\<close>

text \<open>
  The scan returns the winner it was started with when no score is above the starting
  value; otherwise it returns the player at the first position that holds the maximum.
\<close>

lemma find_winner_spec:
  "(find_winner ps w h = w \<and> (\<forall>p \<in> set ps. score p \<le> h)) \<or>
   (\<exists>i < length ps. find_winner ps w h = Some (player_id (ps ! i)) \<and> h < score (ps ! i) \<and>
        (\<forall>j < length ps. score (ps ! j) \<le> score (ps ! i)) \<and>
        (\<forall>j < i. score (ps ! j) < score (ps ! i)))"
proof (induction ps arbitrary: w h)
  case Nil
  show ?case by simp
next
  case (Cons p ps)
  show ?case
  proof (cases "score p > h")
    case True
    from Cons.IH [of "Some (player_id p)" "score p"]
    show ?thesis
    proof (elim disjE exE conjE)
      assume a: "find_winner ps (Some (player_id p)) (score p) = Some (player_id p)"
        "\<forall>q \<in> set ps. score q \<le> score p"
      have "\<forall>j < length (p # ps). score ((p # ps) ! j) \<le> score p"
        using a(2) by (auto simp: nth_Cons' )
      with a(1) True have "0 < length (p # ps) \<and>
          find_winner (p # ps) w h = Some (player_id ((p # ps) ! 0)) \<and> h < score ((p # ps) ! 0) \<and>
          (\<forall>j < length (p # ps). score ((p # ps) ! j) \<le> score ((p # ps) ! 0)) \<and>
          (\<forall>j < 0. score ((p # ps) ! j) < score ((p # ps) ! 0))"
        by simp
      then show ?thesis by blast
    next
      fix i
      assume a: "i < length ps"
        "find_winner ps (Some (player_id p)) (score p) = Some (player_id (ps ! i))"
        "score p < score (ps ! i)"
        "\<forall>j < length ps. score (ps ! j) \<le> score (ps ! i)"
        "\<forall>j < i. score (ps ! j) < score (ps ! i)"
      have 1: "\<forall>j < length (p # ps). score ((p # ps) ! j) \<le> score (ps ! i)"
        using a(3,4) by (auto simp: nth_Cons')
      have 2: "\<forall>j < Suc i. score ((p # ps) ! j) < score (ps ! i)"
        using a(3,5) by (auto simp: nth_Cons')
      from a(1,2,3) True 1 2 have "Suc i < length (p # ps) \<and>
          find_winner (p # ps) w h = Some (player_id ((p # ps) ! Suc i)) \<and>
          h < score ((p # ps) ! Suc i) \<and>
          (\<forall>j < length (p # ps). score ((p # ps) ! j) \<le> score ((p # ps) ! Suc i)) \<and>
          (\<forall>j < Suc i. score ((p # ps) ! j) < score ((p # ps) ! Suc i))"
        by simp
      then show ?thesis by blast
    qed
  next
    case False
    from Cons.IH [of w h]
    show ?thesis
    proof (elim disjE exE conjE)
      assume a: "find_winner ps w h = w" "\<forall>q \<in> set ps. score q \<le> h"
      with False show ?thesis by simp
    next
      fix i
      assume a: "i < length ps"
        "find_winner ps w h = Some (player_id (ps ! i))"
        "h < score (ps ! i)"
        "\<forall>j < length ps. score (ps ! j) \<le> score (ps ! i)"
        "\<forall>j < i. score (ps ! j) < score (ps ! i)"
      have 1: "\<forall>j < length (p # ps). score ((p # ps) ! j) \<le> score (ps ! i)"
        using a(3,4) False by (auto simp: nth_Cons')
      have 2: "\<forall>j < Suc i. score ((p # ps) ! j) < score (ps ! i)"
        using a(3,5) False by (auto simp: nth_Cons')
      from a(1,2,3) False 1 2 have "Suc i < length (p # ps) \<and>
          find_winner (p # ps) w h = Some (player_id ((p # ps) ! Suc i)) \<and>
          h < score ((p # ps) ! Suc i) \<and>
          (\<forall>j < length (p # ps). score ((p # ps) ! j) \<le> score ((p # ps) ! Suc i)) \<and>
          (\<forall>j < Suc i. score ((p # ps) ! j) < score ((p # ps) ! Suc i))"
        by simp
      then show ?thesis by blast
    qed
  qed
qed

lemma find_winner_first_maximum:
  assumes "ps \<noteq> []" "nonneg_scores ps"
  shows "\<exists>i < length ps. find_winner ps None (- 1) = Some (player_id (ps ! i)) \<and>
        (\<forall>j < length ps. score (ps ! j) \<le> score (ps ! i)) \<and>
        (\<forall>j < i. score (ps ! j) < score (ps ! i))"
proof -
  from assms obtain p where "p \<in> set ps" "0 \<le> score p"
    by (cases ps) (auto simp: nonneg_scores_def)
  then have "\<not> (\<forall>p \<in> set ps. score p \<le> - 1)" by force
  with find_winner_spec [of ps None "- 1"] show ?thesis by blast
qed

lemma nonneg_kept: "nonneg_scores a \<Longrightarrow> kept_scores a b \<Longrightarrow> nonneg_scores b"
  unfolding nonneg_scores_def kept_scores_def by force

lemma sleep_players:
  "players (lobby_obj (sleep env secs s)) = players (lobby_obj (fold serve (env (sleeps s)) s))"
  using sleep_membership [of s s "sleeps s" env secs] by (simp add: membership_def)

lemma sleep_nonneg:
  "nonneg_scores (players (lobby_obj s)) \<Longrightarrow> nonneg_scores (players (lobby_obj (sleep env secs s)))"
  using nonneg_kept [OF _ fold_serve_kept] by (simp add: sleep_players)

text \<open>Neither the requests served during a sleep nor the scoring step make a score negative.\<close>

lemma fetch_song_nonneg:
  "nonneg_scores (players (lobby_obj s)) \<Longrightarrow>
   nonneg_scores (players (lobby_obj (snd (fetch_song src env n s))))"
proof (induction src env n s rule: fetch_song.induct)
  case (1 src env retry_count s)
  show ?case
  proof (cases "retry_count < max_retries")
    case False
    with 1 show ?thesis by (subst fetch_song.simps) simp
  next
    case True
    show ?thesis
    proof (cases "complete_song (src (fetches s))")
      case (Some sd)
      with True 1 show ?thesis by (subst fetch_song.simps) simp
    next
      case None
      have "nonneg_scores (players (lobby_obj (sleep env 1 (s\<lparr>fetches := fetches s + 1\<rparr>))))"
        using "1.prems" by (intro sleep_nonneg) simp
      with "1.IH" [OF True None] True None show ?thesis by (subst fetch_song.simps) simp
    qed
  qed
qed

lemma score_players_nonneg:
  "nonneg_scores ps \<Longrightarrow> nonneg_scores (fst (snd (score_players tbl title ps res)))"
  by (induction ps arbitrary: res)
     (simp_all add: score_players_step nonneg_scores_def del: score_players.simps(2)
        split: sum.splits)

lemma round_body_nonneg:
  assumes "nonneg_scores (players (lobby_obj s))" "round_body src env code s = Inr s'"
  shows "nonneg_scores (players (lobby_obj s'))"
proof -
  let ?s1 = "s\<lparr>lobby_obj := (lobby_obj s)\<lparr>guesses :=
                   Some (reset_guesses (players (lobby_obj s)))\<rparr>\<rparr>"
  obtain sd s2 where f: "fetch_song src env 0 ?s1 = (sd, s2)" by (cases "fetch_song src env 0 ?s1")
  have n2: "nonneg_scores (players (lobby_obj s2))"
    using fetch_song_nonneg [of ?s1 src env 0] f assms(1) by simp
  show ?thesis
  proof (cases sd)
    case None
    let ?s3 = "emit_to (round_started_error (round_no (lobby_obj s2)) 30
                          ''Failed to fetch song data. Skipping round.'') code s2"
    have "nonneg_scores (players (lobby_obj (sleep env 5 ?s3)))"
      using n2 by (intro sleep_nonneg) (simp add: emit_to_def)
    with f None assms(2) show ?thesis by (auto simp: round_body_def Let_def)
  next
    case (Some x)
    let ?s4 = "emit_to (round_started (round_no (lobby_obj s2)) 30 x) code
                 (s2\<lparr>lobby_obj := (lobby_obj s2)\<lparr>current_song := Some x\<rparr>\<rparr>)"
    let ?s5 = "sleep env 30 ?s4"
    have n5: "nonneg_scores (players (lobby_obj ?s5))"
      using n2 by (intro sleep_nonneg) (simp add: emit_to_def)
    obtain tbl where g: "guesses (lobby_obj ?s5) = Some tbl"
      using f Some assms(2) by (auto simp: round_body_def Let_def split: option.splits)
    obtain e ps res where sp:
      "score_players tbl (song x) (players (lobby_obj ?s5)) Map.empty = (e, ps, res)"
      by (cases "score_players tbl (song x) (players (lobby_obj ?s5)) Map.empty")
    have e: "e = None"
      using f Some assms(2) g sp by (cases e) (simp_all add: round_body_def Let_def)
    have nps: "nonneg_scores ps"
      using score_players_nonneg [OF n5, of tbl "song x" Map.empty] sp by simp
    define s8 where "s8 = emit_to (round_transition
        (if round_no (lobby_obj ?s5) < run_max_rounds then Some (round_no (lobby_obj ?s5) + 1) else None) 5)
        code (?s5\<lparr>lobby_obj := (lobby_obj ?s5)\<lparr>players := ps\<rparr>,
                  trace := trace ?s5 @ personal_results (round_no (lobby_obj ?s5)) (song x) res
                     (sockets ?s5) ps\<rparr>)"
    have n8: "nonneg_scores (players (lobby_obj s8))" using nps by (simp add: s8_def emit_to_def)
    have "s' = (sleep env 5 s8)\<lparr>lobby_obj := (lobby_obj (sleep env 5 s8))\<lparr>round_no :=
                                   round_no (lobby_obj (sleep env 5 s8)) + 1\<rparr>\<rparr>"
      using f Some assms(2) g sp e
      by (simp add: round_body_def Let_def s8_def emit_to_def cong del: if_weak_cong)
    then show ?thesis using sleep_nonneg [OF n8, of env 5] by simp
  qed
qed

lemma run_loop_nonneg:
  "nonneg_scores (players (lobby_obj s)) \<Longrightarrow> run_loop src env code s = Inr s' \<Longrightarrow>
   nonneg_scores (players (lobby_obj s'))"
proof (induction src env code s rule: run_loop.induct)
  case (1 src env code s)
  show ?case
  proof (cases "round_no (lobby_obj s) \<le> run_max_rounds")
    case False
    with "1.prems" show ?thesis by (subst (asm) run_loop.simps) simp
  next
    case True
    show ?thesis
    proof (cases "round_body src env code s")
      case (Inl a)
      with "1.prems"(2) True show ?thesis by (subst (asm) run_loop.simps) simp
    next
      case (Inr s1)
      have n1: "nonneg_scores (players (lobby_obj s1))"
        using round_body_nonneg [OF "1.prems"(1) Inr] .
      have "run_loop src env code s1 = Inr s'"
        using "1.prems"(2) True Inr by (subst (asm) run_loop.simps) simp
      from "1.IH" [OF True Inr n1 this] show ?thesis .
    qed
  qed
qed

text \<open>The task returns when every guess that arrives and every title is text or falsy.\<close>

lemma run_game_returns_on_text:
  "text_visits env \<Longrightarrow> text_titles src \<Longrightarrow> \<exists>s'. run_game_on src env code s = Inr s'"
proof -
  assume a: "text_visits env" "text_titles src"
  let ?s = "s\<lparr>lobby_obj := (lobby_obj s)\<lparr>round_no := 1\<rparr>\<rparr>"
  have le: "round_no (lobby_obj ?s) \<le> run_max_rounds + 1" by (simp add: run_max_rounds_def)
  from run_loop_returns_text [OF a le, of code] show ?thesis
    by (auto simp: run_game_on_def)
qed

text \<open>
  Claim C6. On a lobby without negative scores, a run of the task that returns (and it
  returns whenever every guess that arrives and every title is text or falsy) has played
  its last round, and the last thing it does is to broadcast \<^verbatim>\<open>game_ended\<close> with the
  final player list. If that list is not empty, the winner named is the player at a
  position \<open>i\<close> whose score is at least every score of the list and strictly above every
  score at an earlier position: the earliest-listed player with the maximal score.
\<close>

theorem winner_is_first_maximum:
  assumes "nonneg_scores (players (lobby_obj s))"
  shows "(text_visits env \<and> text_titles src \<longrightarrow> (\<exists>s1. run_game_on src env code s = Inr s1)) \<and>
   (run_game_on src env code s = Inr s' \<longrightarrow>
     round_no (lobby_obj s') = 11 \<and>
     trace s' \<noteq> [] \<and>
     (\<exists>w. last (trace s') = emit (game_ended w (players (lobby_obj s'))) code \<and>
       (players (lobby_obj s') \<noteq> [] \<longrightarrow>
         (\<exists>i < length (players (lobby_obj s')).
            w = Some (player_id (players (lobby_obj s') ! i)) \<and>
            (\<forall>j < length (players (lobby_obj s')).
                score (players (lobby_obj s') ! j) \<le> score (players (lobby_obj s') ! i)) \<and>
            (\<forall>j < i. score (players (lobby_obj s') ! j) < score (players (lobby_obj s') ! i))))))"
proof -
  let ?s = "s\<lparr>lobby_obj := (lobby_obj s)\<lparr>round_no := 1\<rparr>\<rparr>"
  have returns: "text_visits env \<and> text_titles src \<longrightarrow> (\<exists>s1. run_game_on src env code s = Inr s1)"
    using run_game_returns_on_text [of env src code s] by blast
  have winner: "round_no (lobby_obj s') = 11 \<and> trace s' \<noteq> [] \<and>
     (\<exists>w. last (trace s') = emit (game_ended w (players (lobby_obj s'))) code \<and>
       (players (lobby_obj s') \<noteq> [] \<longrightarrow>
         (\<exists>i < length (players (lobby_obj s')).
            w = Some (player_id (players (lobby_obj s') ! i)) \<and>
            (\<forall>j < length (players (lobby_obj s')).
                score (players (lobby_obj s') ! j) \<le> score (players (lobby_obj s') ! i)) \<and>
            (\<forall>j < i. score (players (lobby_obj s') ! j) < score (players (lobby_obj s') ! i)))))"
    if run: "run_game_on src env code s = Inr s'"
  proof -
    from run obtain s1 where r: "run_loop src env code ?s = Inr s1"
      and s': "s' = finish_game code s1"
      by (cases "run_loop src env code ?s") (auto simp: run_game_on_def)
    have n1: "nonneg_scores (players (lobby_obj s1))"
      using run_loop_nonneg [OF _ r] assms by simp
    have le: "round_no (lobby_obj ?s) \<le> run_max_rounds + 1" by (simp add: run_max_rounds_def)
    have r11: "round_no (lobby_obj s1) = 11"
      using loop_rounds [OF le, of src env code] r by (auto simp: run_max_rounds_def)
    let ?ps = "players (lobby_obj s1)"
    let ?w = "find_winner ?ps None (- 1)"
    have t: "trace s' = trace s1 @ [emit (game_ended ?w ?ps) code]"
      and p: "players (lobby_obj s') = ?ps"
      and q: "round_no (lobby_obj s') = round_no (lobby_obj s1)"
      by (simp_all add: s' finish_game_def emit_to_def)
    have "?ps \<noteq> [] \<longrightarrow> (\<exists>i < length ?ps. ?w = Some (player_id (?ps ! i)) \<and>
          (\<forall>j < length ?ps. score (?ps ! j) \<le> score (?ps ! i)) \<and>
          (\<forall>j < i. score (?ps ! j) < score (?ps ! i)))"
      using find_winner_first_maximum [OF _ n1] by blast
    with t p q r11 show ?thesis by (intro conjI exI [of _ ?w]) simp_all
  qed
  from returns winner show ?thesis by blast
qed

text \<open>An instance: of two players tied at 5, the one listed first wins.\<close>

lemma tie_outcome:
  "outcome (run_game_on always_failing no_visits ''123456'' tie_task) =
     Some (emit (game_ended (Some ''22222'') tie_players) ''123456'', tie_players)"
  by code_simp

theorem winner_is_first_maximum_witness:
  "nonneg_scores (players (lobby_obj tie_task)) \<and>
   text_visits no_visits \<and> text_titles always_failing \<and>
   (\<exists>s'. run_game_on always_failing no_visits ''123456'' tie_task = Inr s' \<and>
         last (trace s') = emit (game_ended (Some ''22222'') tie_players) ''123456'' \<and>
         players (lobby_obj s') = tie_players \<and>
         round_no (lobby_obj s') = 11)"
proof -
  have n: "nonneg_scores (players (lobby_obj tie_task))"
    by (simp add: nonneg_scores_def tie_task_def tie_players_def)
  obtain s' where r: "run_game_on always_failing no_visits ''123456'' tie_task = Inr s'"
    using winner_is_first_maximum [OF n, of no_visits always_failing "''123456''"]
      text_no_visits text_always_failing by blast
  show ?thesis
    using n r winner_is_first_maximum [OF n, of no_visits always_failing "''123456''" s']
      tie_outcome text_no_visits text_always_failing
    by (simp add: outcome_def)
qed

subsection \<open>The host invariant on every reachable state\<close>

text \<open>
  Starting a game and submitting a guess do not touch the player list, and the scoring
  step keeps the host flags. So every state reachable from the empty server has only
  non-empty lobbies with exactly one host each, which is the hypothesis of the theorem
  on \<^verbatim>\<open>create_lobby\<close>, \<^verbatim>\<open>join_lobby\<close> and \<^verbatim>\<open>leave_lobby\<close> above.
\<close>

lemma score_players_host_inv:
  assumes "ps \<noteq> [] \<and> host_inv ps"
  shows "fst (snd (score_players tbl title ps res)) \<noteq> [] \<and>
         host_inv (fst (snd (score_players tbl title ps res)))"
proof -
  let ?ps' = "fst (snd (score_players tbl title ps res))"
  have "length (filter is_host ?ps') = length (filter id (map is_host ?ps'))"
    by (simp add: filter_map comp_def)
  also have "\<dots> = length (filter id (map is_host ps))" by (simp only: score_players_hosts)
  also have "\<dots> = length (filter is_host ps)" by (simp add: filter_map comp_def)
  finally have "length (filter is_host ?ps') = length (filter is_host ps)" .
  moreover have "?ps' \<noteq> []" using assms score_players_length [of tbl title ps res] by auto
  ultimately show ?thesis using assms by (simp add: host_inv_def one_host_def)
qed

lemma lookup_inv:
  "server_inv srv \<Longrightarrow> lobbies srv c = Some lb \<Longrightarrow> players lb \<noteq> [] \<and> host_inv (players lb)"
  by (auto simp: server_inv_def ran_def)

lemma start_preserves: "server_inv srv \<Longrightarrow> server_inv (snd (start_game code sess srv))"
proof -
  assume inv: "server_inv srv"
  have "server_inv (srv\<lparr>lobbies := (lobbies srv)(c \<mapsto> lb\<lparr>status := playing\<rparr>),
                         emitted := e, tasks := t\<rparr>)"
    if "find_lobby code srv = Some (c, lb)" for c lb e t
    using find_lobby_inv [OF inv that]
    by (intro server_inv_upd [OF inv, of "lb\<lparr>status := playing\<rparr>" _ c]) simp_all
  with inv show ?thesis
    by (auto simp: start_game_def split: option.splits)
qed

lemma submit_preserves:
  "server_inv srv \<Longrightarrow> submit_guess gs code sess srv = Inr (r, srv') \<Longrightarrow> server_inv srv'"
proof -
  assume inv: "server_inv srv" and s: "submit_guess gs code sess srv = Inr (r, srv')"
  have "server_inv (srv\<lparr>lobbies := (lobbies srv)(c \<mapsto> lb\<lparr>guesses := g\<rparr>), emitted := e\<rparr>)"
    if "find_lobby code srv = Some (c, lb)" for c lb g e
    using find_lobby_inv [OF inv that]
    by (intro server_inv_upd [OF inv, of "lb\<lparr>guesses := g\<rparr>" _ c]) simp_all
  with inv s show ?thesis
    by (auto simp: submit_guess_def split: option.splits if_splits)
qed

lemma reachable_server_inv: "reachable srv \<Longrightarrow> server_inv srv"
proof (induction rule: reachable.induct)
  case initial
  show ?case by (simp add: server_inv_def empty_server_def)
next
  case (created srv draws rnd sess r sess' srv')
  then show ?case using create_preserves by blast
next
  case (joined srv code rnd sess)
  then show ?case using join_preserves by blast
next
  case (left srv code sess)
  then show ?case using leave_preserves by blast
next
  case (started srv code sess)
  then show ?case using start_preserves by blast
next
  case (guessed srv gs code sess r srv')
  then show ?case using submit_preserves by blast
next
  case (scored srv c lb tbl title res)
  have "players (lb\<lparr>players := fst (snd (score_players tbl title (players lb) res))\<rparr>) \<noteq> [] \<and>
      host_inv (players (lb\<lparr>players := fst (snd (score_players tbl title (players lb) res))\<rparr>))"
    using score_players_host_inv [OF lookup_inv [OF scored.IH scored.hyps(2)]] by simp
  then show ?case by (intro server_inv_upd [OF scored.IH]) simp_all
next
  case (written srv c lb lb')
  have "players lb' \<noteq> [] \<and> host_inv (players lb')"
    using lookup_inv [OF written.IH written.hyps(2)] written.hyps(3) by simp
  then show ?case by (intro server_inv_upd [OF written.IH]) simp_all
qed

section \<open>Properties of the guess validator\<close>

subsection \<open>The ratio lies between 0 and 1\<close>

text \<open>
  The blocks found never have more elements in total than the ranges on the stack
  still offer, in \<^verbatim>\<open>a\<close> and in \<^verbatim>\<open>b\<close>; sorting and merging keep the total.
\<close>

definition span_a :: "span \<Rightarrow> nat" where
  "span_a sp = (case sp of (alo, ahi, blo, bhi) \<Rightarrow> ahi - alo)"

definition span_b :: "span \<Rightarrow> nat" where
  "span_b sp = (case sp of (alo, ahi, blo, bhi) \<Rightarrow> bhi - blo)"

lemma matching_loop_bound:
  "sum_list (map block_size (matching_loop a b queue blocks)) \<le>
     sum_list (map block_size blocks) + sum_list (map span_a queue) \<and>
   sum_list (map block_size (matching_loop a b queue blocks)) \<le>
     sum_list (map block_size blocks) + sum_list (map span_b queue)"
proof (induction a b queue blocks rule: matching_loop.induct)
  case (1 a b matching_blocks)
  show ?case by simp
next
  case (2 a b alo ahi blo bhi queue matching_blocks)
  obtain i j k where f: "find_longest_match a b alo ahi blo bhi = (i, j, k)"
    by (cases "find_longest_match a b alo ahi blo bhi")
  show ?case
  proof (cases "k = 0")
    case True
    have e: "matching_loop a b ((alo, ahi, blo, bhi) # queue) matching_blocks =
        matching_loop a b queue matching_blocks"
      using f True by (subst matching_loop.simps) simp
    have nk: "\<not> k \<noteq> 0" using True by simp
    from "2.IH"(2) [OF f [symmetric] refl nk] show ?thesis
      unfolding e by (simp add: span_a_def span_b_def)
  next
    case False
    define q where "q =
      (if i + k < ahi \<and> j + k < bhi then [(i + k, ahi, j + k, bhi)] else []) @
      (if alo < i \<and> blo < j then [(alo, i, blo, j)] else []) @ queue"
    define m where "m = sum_list (map block_size (matching_loop a b q (matching_blocks @ [(i, j, k)])))"
    have r: "alo \<le> i \<and> i + k \<le> ahi \<and> blo \<le> j \<and> j + k \<le> bhi"
      using find_longest_match_range [OF f False] .
    have h1: "sum_list (map block_size (matching_blocks @ [(i, j, k)])) =
        sum_list (map block_size matching_blocks) + k"
      by (simp add: block_size_def)
    have ih: "m \<le> sum_list (map block_size matching_blocks) + k + sum_list (map span_a q) \<and>
      m \<le> sum_list (map block_size matching_blocks) + k + sum_list (map span_b q)"
      using "2.IH"(1) [OF f [symmetric] refl False] unfolding q_def [symmetric] m_def h1 .
    have qa: "k + sum_list (map span_a q) \<le> (ahi - alo) + sum_list (map span_a queue)"
      using r by (auto simp: span_a_def q_def)
    have qb: "k + sum_list (map span_b q) \<le> (bhi - blo) + sum_list (map span_b queue)"
      using r by (auto simp: span_b_def q_def)
    have h2: "sum_list (map span_a ((alo, ahi, blo, bhi) # queue)) =
        (ahi - alo) + sum_list (map span_a queue)"
      "sum_list (map span_b ((alo, ahi, blo, bhi) # queue)) =
        (bhi - blo) + sum_list (map span_b queue)"
      by (simp_all add: span_a_def span_b_def)
    have e: "sum_list (map block_size
        (matching_loop a b ((alo, ahi, blo, bhi) # queue) matching_blocks)) = m"
      using f False unfolding m_def q_def by (subst matching_loop.simps) simp
    from ih qa qb show ?thesis
      unfolding e h2 by linarith
  qed
qed

lemma sum_insort:
  "sum_list (map f (insort x xs)) = (f x :: nat) + sum_list (map f xs)"
  by (induction xs) (auto simp: ac_simps)

lemma sum_sort: "sum_list (map f (sort xs)) = (sum_list (map f xs) :: nat)"
  by (induction xs) (auto simp: sum_insort)

lemma sum_collapse:
  "sum_list (map block_size (collapse blk blocks)) =
     block_size blk + sum_list (map block_size blocks)"
  by (induction blk blocks rule: collapse.induct) (auto simp: block_size_def)

lemma matches_bound:
  "sum_list (map block_size (get_matching_blocks a b)) \<le> length a \<and>
   sum_list (map block_size (get_matching_blocks a b)) \<le> length b"
  using matching_loop_bound [of a b "[(0, length a, 0, length b)]" "[]"]
  by (simp add: get_matching_blocks_def sum_collapse sum_sort span_a_def span_b_def block_size_def)

lemma ratio_range: "0 \<le> ratio a b \<and> ratio a b \<le> 1"
proof -
  let ?m = "sum_list (map block_size (get_matching_blocks a b))"
  have "2 * ?m \<le> length a + length b" using matches_bound [of a b] by simp
  then have "(of_nat (2 * ?m) :: rat) \<le> of_nat (length a + length b)"
    by (simp only: of_nat_le_iff)
  then have "2 * (of_nat ?m :: rat) \<le> of_nat (length a + length b)" by simp
  then show ?thesis
    by (simp add: ratio_def calculate_ratio_def divide_le_eq)
qed



subsection \<open>Cleaning a title\<close>

text \<open>
  The substitution leaves a text without an opening parenthesis as it is. In a text
  that begins with a part free of opening parentheses, followed by whitespace, an
  opening parenthesis, a part free of closing parentheses and a closing parenthesis, it
  keeps the first part and drops the whitespace and the parenthesised part, and goes on
  with the rest. The first part is empty or ends in a character that is not whitespace,
  so that the whitespace before the parenthesis is all of it.
\<close>

lemma match_parens_no_paren: "CHR ''('' \<notin> set s \<Longrightarrow> match_parens s = None"
proof -
  assume a: "CHR ''('' \<notin> set s"
  show ?thesis
  proof (cases "dropWhile is_space s")
    case Nil
    show ?thesis unfolding match_parens_def Nil by simp
  next
    case (Cons c cs)
    then have "c \<in> set s" using set_dropWhileD [of c is_space s] by simp
    with a have "c \<noteq> CHR ''(''" by auto
    with Cons show ?thesis by (simp add: match_parens_def)
  qed
qed

lemma sub_parens_Nil: "sub_parens [] = []"
  by (subst sub_parens.simps) simp

lemma sub_parens_keep:
  "match_parens (c # cs) = None \<Longrightarrow> sub_parens (c # cs) = c # sub_parens cs"
  by (subst sub_parens.simps) simp

lemma sub_parens_drop:
  "s \<noteq> [] \<Longrightarrow> match_parens s = Some rest \<Longrightarrow> sub_parens s = sub_parens rest"
  by (cases s) (simp, subst sub_parens.simps, simp)

lemma sub_parens_no_paren: "CHR ''('' \<notin> set s \<Longrightarrow> sub_parens s = s"
proof (induction s)
  case Nil
  show ?case by (rule sub_parens_Nil)
next
  case (Cons c cs)
  have "match_parens (c # cs) = None" using Cons.prems by (rule match_parens_no_paren)
  then have "sub_parens (c # cs) = c # sub_parens cs" by (rule sub_parens_keep)
  with Cons show ?case by simp
qed

lemma match_parens_inside:
  assumes "CHR ''('' \<notin> set (c # pre)" "\<not> is_space (last (c # pre))"
  shows "match_parens ((c # pre) @ rest) = None"
proof -
  have m: "last (c # pre) \<in> set (c # pre)" by (rule last_in_set) simp
  have d: "dropWhile is_space ((c # pre) @ rest) = dropWhile is_space (c # pre) @ rest"
    using m assms(2) by (rule dropWhile_append1)
  have ne: "dropWhile is_space (c # pre) \<noteq> []"
    using m assms(2) by (auto simp: dropWhile_eq_Nil_conv simp del: last.simps)
  then obtain x xs where x: "dropWhile is_space (c # pre) = x # xs"
    by (cases "dropWhile is_space (c # pre)") auto
  then have "x \<in> set (c # pre)" using set_dropWhileD [of x is_space "c # pre"] by simp
  with assms(1) have "x \<noteq> CHR ''(''" by auto
  with d x show ?thesis by (simp add: match_parens_def)
qed

lemma sub_parens_prefix:
  "CHR ''('' \<notin> set pre \<Longrightarrow> pre = [] \<or> \<not> is_space (last pre) \<Longrightarrow>
   sub_parens (pre @ rest) = pre @ sub_parens rest"
proof (induction pre)
  case Nil
  show ?case by simp
next
  case (Cons c pre)
  have l: "\<not> is_space (last (c # pre))" using Cons.prems(2) by simp
  have "match_parens ((c # pre) @ rest) = None"
    using Cons.prems(1) l by (rule match_parens_inside)
  then have k: "sub_parens (c # pre @ rest) = c # sub_parens (pre @ rest)"
    using sub_parens_keep [of c "pre @ rest"] by simp
  have "pre = [] \<or> \<not> is_space (last pre)" using l by (cases pre) auto
  with Cons.IH Cons.prems(1) have "sub_parens (pre @ rest) = pre @ sub_parens rest" by simp
  with k show ?case by simp
qed

lemma after_close_first: "CHR '')'' \<notin> set mid \<Longrightarrow> after_close (mid @ CHR '')'' # post) = Some post"
  by (induction mid) auto

lemma not_space_paren: "\<not> is_space CHR ''(''"
  by (simp add: is_space_def)

lemma match_parens_segment:
  "\<forall>c \<in> set ws. is_space c \<Longrightarrow> CHR '')'' \<notin> set mid \<Longrightarrow>
   match_parens (ws @ CHR ''('' # mid @ CHR '')'' # post) = Some post"
  by (simp add: match_parens_def dropWhile_append2 not_space_paren after_close_first)

lemma sub_parens_segment:
  assumes "CHR ''('' \<notin> set pre" "pre = [] \<or> \<not> is_space (last pre)"
    "\<forall>c \<in> set ws. is_space c" "CHR '')'' \<notin> set mid"
  shows "sub_parens (pre @ ws @ CHR ''('' # mid @ CHR '')'' # post) = pre @ sub_parens post"
proof -
  have "sub_parens (ws @ CHR ''('' # mid @ CHR '')'' # post) = sub_parens post"
    using match_parens_segment [OF assms(3,4), of post]
    by (intro sub_parens_drop) simp_all
  with sub_parens_prefix [OF assms(1,2)] show ?thesis by simp
qed

text \<open>
  \<^verbatim>\<open>strip\<close> removes whitespace, and only whitespace, from both ends: the text is the
  stripped text between two runs of whitespace, and the stripped text, if not empty,
  begins and ends with a character that is not whitespace.
\<close>

lemma strip_split:
  "\<exists>l r. s = l @ strip s @ r \<and> (\<forall>c \<in> set l. is_space c) \<and> (\<forall>c \<in> set r. is_space c)"
proof -
  let ?d = "dropWhile is_space s"
  let ?l = "takeWhile is_space s"
  let ?r = "rev (takeWhile is_space (rev ?d))"
  have "strip s @ ?r = rev (takeWhile is_space (rev ?d) @ dropWhile is_space (rev ?d))"
    by (simp only: strip_def rev_append)
  also have "\<dots> = rev (rev ?d)" by (simp only: takeWhile_dropWhile_id)
  also have "\<dots> = ?d" by simp
  finally have d: "?d = strip s @ ?r" by (rule sym)
  have "s = ?l @ ?d" by simp
  with d have "s = ?l @ strip s @ ?r" by simp
  moreover have "\<forall>c \<in> set ?l. is_space c" by (auto dest: set_takeWhileD)
  moreover have "\<forall>c \<in> set ?r. is_space c" by (auto dest: set_takeWhileD)
  ultimately show ?thesis by blast
qed

lemma strip_ends:
  assumes "strip s \<noteq> []"
  shows "\<not> is_space (hd (strip s)) \<and> \<not> is_space (last (strip s))"
proof -
  let ?d = "dropWhile is_space s"
  let ?e = "dropWhile is_space (rev ?d)"
  have e: "?e \<noteq> []" using assms by (simp add: strip_def)
  then have d: "?d \<noteq> []"
    by (cases "dropWhile is_space s") (simp_all del: dropWhile_eq_Nil_conv)
  have "last (strip s) = hd ?e" using e by (simp add: strip_def last_rev)
  moreover have "\<not> is_space (hd ?e)" using e by (rule hd_dropWhile)
  ultimately have l: "\<not> is_space (last (strip s))" by simp
  have "last (rev ?d) = last (takeWhile is_space (rev ?d) @ ?e)"
    by (simp only: takeWhile_dropWhile_id)
  also have "\<dots> = last ?e" using e by (simp only: last_append if_False)
  finally have "last (rev ?d) = last ?e" .
  then have "hd (strip s) = hd ?d" using e d by (simp add: strip_def hd_rev last_rev)
  moreover have "\<not> is_space (hd ?d)" using d by (rule hd_dropWhile)
  ultimately show ?thesis using l by simp
qed

text \<open>The examples of the specification: the cleaned texts and their ratios.\<close>

lemma clean_feat: "clean_title ''Give Me Everything (feat. Nayer)'' = ''give me everything''"
  by code_simp

lemma clean_plain: "clean_title ''give me everything'' = ''give me everything''"
  by code_simp

lemma clean_different: "clean_title ''totally different'' = ''totally different''"
  by code_simp

lemma ratio_feat: "ratio ''give me everything'' ''give me everything'' = 1"
  by code_simp

lemma ratio_different: "ratio ''totally different'' ''give me everything'' = 8 / 35"
  by code_simp

lemma ratio_unstripped: "ratio ''give me everything (feat. nayer)'' ''give me everything'' = 18 / 25"
  by code_simp

text \<open>
  Claim C7. \<^verbatim>\<open>is_close_match\<close> is true exactly when the similarity ratio of the two cleaned
  texts is at least 7/10, and that ratio lies between 0 and 1. Cleaning is the
  substitution, then \<^verbatim>\<open>strip\<close>, then \<^verbatim>\<open>lower\<close>. The substitution leaves a text without an
  opening parenthesis unchanged and removes a parenthesised segment together with the
  whitespace before it; \<^verbatim>\<open>strip\<close> removes exactly the whitespace at both ends. The title
  with \<^verbatim>\<open>(feat. Nayer)\<close> is cleaned to \<^verbatim>\<open>give me everything\<close>, which has ratio 1 with
  itself, so the first example is true; \<^verbatim>\<open>totally different\<close> stays as it is and has
  ratio 8/35 with \<^verbatim>\<open>give me everything\<close>, so the second example is false.
\<close>

theorem is_close_match_spec:
  "is_close_match g reference = (ratio (clean_title g) (clean_title reference) \<ge> 7 / 10) \<and>
   0 \<le> ratio (clean_title g) (clean_title reference) \<and>
   ratio (clean_title g) (clean_title reference) \<le> 1 \<and>
   clean_title g = lower (strip (sub_parens g)) \<and>
   (CHR ''('' \<notin> set t \<longrightarrow> sub_parens t = t) \<and>
   (CHR ''('' \<notin> set pre \<and> (pre = [] \<or> \<not> is_space (last pre)) \<and>
    (\<forall>c \<in> set ws. is_space c) \<and> CHR '')'' \<notin> set mid \<longrightarrow>
      sub_parens (pre @ ws @ CHR ''('' # mid @ CHR '')'' # post) = pre @ sub_parens post) \<and>
   (\<exists>l r. u = l @ strip u @ r \<and> (\<forall>c \<in> set l. is_space c) \<and> (\<forall>c \<in> set r. is_space c)) \<and>
   (strip u \<noteq> [] \<longrightarrow> \<not> is_space (hd (strip u)) \<and> \<not> is_space (last (strip u))) \<and>
   clean_title ''Give Me Everything (feat. Nayer)'' = ''give me everything'' \<and>
   clean_title ''give me everything'' = ''give me everything'' \<and>
   clean_title ''totally different'' = ''totally different'' \<and>
   ratio ''give me everything'' ''give me everything'' = 1 \<and>
   ratio ''totally different'' ''give me everything'' = 8 / 35 \<and>
   is_close_match ''Give Me Everything (feat. Nayer)'' ''give me everything'' \<and>
   \<not> is_close_match ''totally different'' ''give me everything''"
proof -
  have a: "is_close_match g reference = (ratio (clean_title g) (clean_title reference) \<ge> 7 / 10)"
    by (simp add: is_close_match_def threshold_def)
  have b: "clean_title g = lower (strip (sub_parens g))" by (simp add: clean_title_def)
  have f: "is_close_match ''Give Me Everything (feat. Nayer)'' ''give me everything''"
    by (simp add: is_close_match_def threshold_def clean_feat clean_plain ratio_feat)
  have d: "\<not> is_close_match ''totally different'' ''give me everything''"
    by (simp add: is_close_match_def threshold_def clean_different clean_plain ratio_different)
  show ?thesis
    using a b f d ratio_range [of "clean_title g" "clean_title reference"]
      sub_parens_no_paren [of t] sub_parens_segment [of pre ws mid post]
      strip_split [of u] strip_ends [of u]
      clean_feat clean_plain clean_different ratio_feat ratio_different
    by blast
qed

text \<open>
  An instance: the substitution on the two texts of the first example, with the title
  split at its parenthesis, and \<^verbatim>\<open>strip\<close> on a text with whitespace at both ends.
\<close>

lemma strip_sample: "strip ''  Hello World   '' = ''Hello World''"
  by code_simp

lemma sub_parens_sample:
  "sub_parens ''Hello (Live) World (Remastered 2011) x'' = ''Hello World x''"
  by code_simp

theorem is_close_match_spec_witness:
  "CHR ''('' \<notin> set ''give me everything'' \<and>
   sub_parens ''give me everything'' = ''give me everything'' \<and>
   CHR ''('' \<notin> set ''Give Me Everything'' \<and>
   \<not> is_space (last ''Give Me Everything'') \<and>
   list_all is_space '' '' \<and>
   CHR '')'' \<notin> set ''feat. Nayer'' \<and>
   sub_parens ''Give Me Everything (feat. Nayer)'' = ''Give Me Everything'' \<and>
   strip ''  Hello World   '' = ''Hello World'' \<and>
   \<not> is_space (hd (strip ''  Hello World   '')) \<and>
   \<not> is_space (last (strip ''  Hello World   ''))"
proof -
  have h1: "CHR ''('' \<notin> set ''give me everything''" by simp
  have h2: "CHR ''('' \<notin> set ''Give Me Everything''" by simp
  have h3: "\<not> is_space (last ''Give Me Everything'')" by (simp add: is_space_def)
  have h4: "\<forall>c \<in> set '' ''. is_space c" by (simp add: is_space_def)
  have h5: "CHR '')'' \<notin> set ''feat. Nayer''" by simp
  have h6: "strip ''  Hello World   '' \<noteq> []" by (simp add: strip_sample)
  note spec = is_close_match_spec [where t = "''give me everything''"
      and pre = "''Give Me Everything''" and ws = "'' ''" and mid = "''feat. Nayer''"
      and post = "[]" and u = "''  Hello World   ''"]
  have s1: "sub_parens ''give me everything'' = ''give me everything''"
    using spec h1 by blast
  have "sub_parens (''Give Me Everything'' @ '' '' @ CHR ''('' # ''feat. Nayer'' @ CHR '')'' # []) =
      ''Give Me Everything'' @ sub_parens []"
    using spec h2 h3 h4 h5 by blast
  then have s2: "sub_parens ''Give Me Everything (feat. Nayer)'' = ''Give Me Everything''"
    by (simp add: sub_parens_Nil)
  have s3: "\<not> is_space (hd (strip ''  Hello World   '')) \<and>
      \<not> is_space (last (strip ''  Hello World   ''))"
    using spec h6 by blast
  from h1 h2 h3 h4 h5 s1 s2 s3 show ?thesis by (simp add: strip_sample)
qed

subsection \<open>The score of a session\<close>



end
